theory Spec2Isabelle
  imports Main "HOL-Library.Word" "HOL-Library.Signed_Division"
begin

unbundle bit_operations_syntax

section \<open>Go values\<close>

text \<open>
  The five load balancers of \<^verbatim>\<open>golang-loadbalancer\<close> are separate \<^verbatim>\<open>package main\<close>
  programs with the same skeleton. Their definitions carry a prefix: \<open>rr\<close> (round robin),
  \<open>wrr\<close> (weighted round robin), \<open>lc\<close> (least connections), \<open>lrt\<close> (least response
  time) and \<open>sip\<close> (source-IP hash).

  Go's \<^verbatim>\<open>int\<close>, \<^verbatim>\<open>int64\<close> and \<^verbatim>\<open>time.Duration\<close> are 64-bit two's complement values
  (\<^verbatim>\<open>int\<close> as on amd64 and arm64): \<open>64 word\<close>, read through \<open>sint\<close> where the code compares,
  divides or indexes. \<^verbatim>\<open>uint32\<close> is \<open>32 word\<close>, a byte is \<open>8 word\<close>.
\<close>

type_synonym go_int = "64 word"

text \<open>\<^verbatim>\<open>a % b\<close> and \<^verbatim>\<open>a / b\<close> on signed integers truncate towards zero; the caller checks
  \<^verbatim>\<open>b == 0\<close>, where Go panics.\<close>

definition go_rem :: "go_int \<Rightarrow> go_int \<Rightarrow> go_int" where
  "go_rem a b = word_of_int (sint a smod sint b)"

definition go_quo :: "go_int \<Rightarrow> go_int \<Rightarrow> go_int" where
  "go_quo a b = word_of_int (sint a sdiv sint b)"

text \<open>\<^verbatim>\<open>len(xs)\<close> as an \<^verbatim>\<open>int\<close>.\<close>

definition len :: "'a list \<Rightarrow> go_int" where
  "len xs = of_nat (length xs)"

text \<open>A run-time panic of the Go program.\<close>

datatype panic = DivideByZero | IndexOutOfRange

text \<open>\<^verbatim>\<open>xs[i]\<close>: the index is checked against the length.\<close>

definition in_range :: "'a list \<Rightarrow> go_int \<Rightarrow> bool" where
  "in_range xs i = (0 \<le> sint i \<and> sint i < int (length xs))"

definition index :: "'a list \<Rightarrow> go_int \<Rightarrow> 'a" where
  "index xs i = xs ! nat (sint i)"

section \<open>The health probe\<close>

text \<open>
  \<^verbatim>\<open>IsAlive\<close> is the same method in all five programs: a GET with a two-second timeout.
  What the GET returns is an input of the model: an error (timeout, refused connection, ...)
  or a response with its status code. The network is a function of a logical clock, which
  counts the probes made so far, and of the address probed.
\<close>

datatype http_get = GetError | GetResponse int

type_synonym network = "nat \<Rightarrow> string \<Rightarrow> http_get"

definition StatusOK :: int where
  "StatusOK = 200"

definition StatusServiceUnavailable :: int where
  "StatusServiceUnavailable = 503"

fun IsAlive :: "http_get \<Rightarrow> bool" where
  "IsAlive GetError = False"
| "IsAlive (GetResponse StatusCode) = (if StatusCode \<noteq> StatusOK then False else True)"

text \<open>The spec's words for the probe: the request completes without error and the responder
  reports a success status, a status of the class 2xx.\<close>

definition completes :: "http_get \<Rightarrow> bool" where
  "completes r = (case r of GetError \<Rightarrow> False | GetResponse _ \<Rightarrow> True)"

definition success_status :: "http_get \<Rightarrow> bool" where
  "success_status r = (case r of GetError \<Rightarrow> False | GetResponse c \<Rightarrow> 200 \<le> c \<and> c \<le> 299)"

section \<open>What a request gets back\<close>

text \<open>
  \<^verbatim>\<open>serveProxy\<close> either answers itself through \<^verbatim>\<open>http.Error\<close> or hands the request to
  \<^verbatim>\<open>Serve\<close> of the chosen backend, the backend at a position of the pool. A picked
  \<^verbatim>\<open>Server\<close> is its position in \<^verbatim>\<open>lb.servers\<close>; \<open>None\<close> is Go's \<^verbatim>\<open>nil\<close>.

  The reverse proxy is the external transport. What \<^verbatim>\<open>proxy.ServeHTTP\<close> does is an input: it
  returns, after a measured duration, or it panics (a transport failure after the response has
  started aborts the handler).
\<close>

datatype response = HttpError string int | Forwarded nat

datatype forward = Returns go_int | Panics

section \<open>Least connections (leastConnection.go)\<close>

record lc_simpleServer =
  lc_addr :: string
  lc_connections :: go_int

record lc_loadBalancer =
  lc_port :: string
  lc_servers :: "lc_simpleServer list"

definition lc_newSimpleServer :: "string \<Rightarrow> lc_simpleServer" where
  "lc_newSimpleServer a = \<lparr>lc_addr = a, lc_connections = 0\<rparr>"

definition lc_newLoadBalancer :: "string \<Rightarrow> lc_simpleServer list \<Rightarrow> lc_loadBalancer" where
  "lc_newLoadBalancer port servers = \<lparr>lc_port = port, lc_servers = servers\<rparr>"

text \<open>The methods with a pointer receiver take the server and give it back. Each runs under
  the server's mutex, so it is one atomic step.\<close>

definition lc_IncrementConnection :: "lc_simpleServer \<Rightarrow> lc_simpleServer" where
  "lc_IncrementConnection s = s\<lparr>lc_connections := lc_connections s + 1\<rparr>"

definition lc_DecrementConnection :: "lc_simpleServer \<Rightarrow> lc_simpleServer" where
  "lc_DecrementConnection s = s\<lparr>lc_connections := lc_connections s - 1\<rparr>"

definition lc_Connections :: "lc_simpleServer \<Rightarrow> go_int \<times> lc_simpleServer" where
  "lc_Connections s = (lc_connections s, s)"

text \<open>\<^verbatim>\<open>Serve\<close>: the increment, the forward, and the deferred decrement, which runs when
  \<^verbatim>\<open>ServeHTTP\<close> returns and when it panics.\<close>

definition lc_Serve :: "forward \<Rightarrow> lc_simpleServer \<Rightarrow> lc_simpleServer" where
  "lc_Serve fw s =
     (let s1 = lc_IncrementConnection s
      in case fw of Returns d \<Rightarrow> lc_DecrementConnection s1 | Panics \<Rightarrow> lc_DecrementConnection s1)"

text \<open>\<^verbatim>\<open>for _, server := range lb.servers\<close> of \<^verbatim>\<open>pickServer\<close>: \<open>t\<close> is the clock, \<open>i\<close> the
  position of \<open>server\<close> in the pool. The result holds the servers as the loop leaves them.\<close>

fun lc_range ::
  "network \<Rightarrow> nat \<Rightarrow> nat \<Rightarrow> lc_simpleServer list \<Rightarrow> nat option \<Rightarrow> go_int
     \<Rightarrow> nat option \<times> lc_simpleServer list \<times> nat" where
  "lc_range net t i [] selectedServer minConnections = (selectedServer, [], t)"
| "lc_range net t i (server # rest) selectedServer minConnections =
     (let (selectedServer', minConnections', server') =
            (if IsAlive (net t (lc_addr server)) then
               (let (connections, server') = lc_Connections server
                in if sint connections < sint minConnections then (Some i, connections, server')
                   else (selectedServer, minConnections, server'))
             else (selectedServer, minConnections, server));
          (r, rest', t') = lc_range net (t + 1) (i + 1) rest selectedServer' minConnections'
      in (r, server' # rest', t'))"

definition lc_pickServer ::
  "network \<Rightarrow> lc_loadBalancer \<Rightarrow> nat \<Rightarrow> nat option \<times> lc_loadBalancer \<times> nat" where
  "lc_pickServer net lb t =
     (let (selectedServer, servers', t') =
            lc_range net t 0 (lc_servers lb) None (drop_bit 1 (NOT 0))
      in (selectedServer, lb\<lparr>lc_servers := servers'\<rparr>, t'))"

definition lc_serveProxy ::
  "network \<Rightarrow> forward \<Rightarrow> lc_loadBalancer \<Rightarrow> nat \<Rightarrow> response \<times> lc_loadBalancer \<times> nat" where
  "lc_serveProxy net fw lb t =
     (let (targetServer, lb', t') = lc_pickServer net lb t
      in case targetServer of
           None \<Rightarrow> (HttpError ''Service Unavailable'' StatusServiceUnavailable, lb', t')
         | Some i \<Rightarrow>
             (Forwarded i,
              lb'\<lparr>lc_servers := (lc_servers lb')[i := lc_Serve fw (lc_servers lb' ! i)]\<rparr>, t'))"

text \<open>
  Requests are served concurrently, one goroutine each, so the \<^verbatim>\<open>Serve\<close> calls on one
  backend interleave. The mutex makes the increment and the decrement atomic; a run of the
  backend is a sequence of these two events. \<open>Enter\<close> is the increment that opens a
  \<^verbatim>\<open>Serve\<close> call; \<open>Leave fw\<close> is the deferred decrement of a call whose forward ended as
  \<open>fw\<close>. The second component of the state counts the calls that have entered and not left;
  a \<open>Leave\<close> with no call inside is not a run of the program.
\<close>

datatype serve_event = Enter | Leave forward

fun lc_event :: "serve_event \<Rightarrow> lc_simpleServer \<times> nat \<Rightarrow> (lc_simpleServer \<times> nat) option" where
  "lc_event Enter (s, n) = Some (lc_IncrementConnection s, Suc n)"
| "lc_event (Leave fw) (s, n) = (if n = 0 then None else Some (lc_DecrementConnection s, n - 1))"

fun lc_events :: "serve_event list \<Rightarrow> lc_simpleServer \<times> nat \<Rightarrow> (lc_simpleServer \<times> nat) option" where
  "lc_events [] st = Some st"
| "lc_events (e # es) st = (case lc_event e st of None \<Rightarrow> None | Some st' \<Rightarrow> lc_events es st')"

section \<open>Least response time\<close>

record lrt_simpleServer =
  lrt_addr :: string
  lrt_connections :: go_int
  totalResponseTime :: go_int
  requests :: go_int

record lrt_loadBalancer =
  lrt_port :: string
  lrt_servers :: "lrt_simpleServer list"

definition lrt_newSimpleServer :: "string \<Rightarrow> lrt_simpleServer" where
  "lrt_newSimpleServer a =
     \<lparr>lrt_addr = a, lrt_connections = 0, totalResponseTime = 0, requests = 0\<rparr>"

definition lrt_newLoadBalancer :: "string \<Rightarrow> lrt_simpleServer list \<Rightarrow> lrt_loadBalancer" where
  "lrt_newLoadBalancer port servers = \<lparr>lrt_port = port, lrt_servers = servers\<rparr>"

definition lrt_IncrementConnection :: "lrt_simpleServer \<Rightarrow> lrt_simpleServer" where
  "lrt_IncrementConnection s = s\<lparr>lrt_connections := lrt_connections s + 1\<rparr>"

definition lrt_DecrementConnection :: "lrt_simpleServer \<Rightarrow> lrt_simpleServer" where
  "lrt_DecrementConnection s = s\<lparr>lrt_connections := lrt_connections s - 1\<rparr>"

definition UpdateResponseTime :: "go_int \<Rightarrow> lrt_simpleServer \<Rightarrow> lrt_simpleServer" where
  "UpdateResponseTime duration s =
     s\<lparr>requests := requests s + 1, totalResponseTime := totalResponseTime s + duration\<rparr>"

definition AverageResponseTime :: "lrt_simpleServer \<Rightarrow> go_int \<times> lrt_simpleServer" where
  "AverageResponseTime s =
     (if requests s = 0 then (0, s)
      else (go_quo (totalResponseTime s) (requests s), s))"

text \<open>\<^verbatim>\<open>Serve\<close>: a panic of \<^verbatim>\<open>ServeHTTP\<close> skips the update of the response time, and the
  deferred decrement still runs.\<close>

definition lrt_Serve :: "forward \<Rightarrow> lrt_simpleServer \<Rightarrow> lrt_simpleServer" where
  "lrt_Serve fw s =
     (let s1 = lrt_IncrementConnection s
      in case fw of
           Returns duration \<Rightarrow> lrt_DecrementConnection (UpdateResponseTime duration s1)
         | Panics \<Rightarrow> lrt_DecrementConnection s1)"

fun lrt_range ::
  "network \<Rightarrow> nat \<Rightarrow> nat \<Rightarrow> lrt_simpleServer list \<Rightarrow> nat option \<Rightarrow> go_int
     \<Rightarrow> nat option \<times> lrt_simpleServer list \<times> nat" where
  "lrt_range net t i [] selectedServer minResponseTime = (selectedServer, [], t)"
| "lrt_range net t i (server # rest) selectedServer minResponseTime =
     (let (selectedServer', minResponseTime', server') =
            (if IsAlive (net t (lrt_addr server)) then
               (let (responseTime, server') = AverageResponseTime server
                in if sint responseTime < sint minResponseTime then (Some i, responseTime, server')
                   else (selectedServer, minResponseTime, server'))
             else (selectedServer, minResponseTime, server));
          (r, rest', t') = lrt_range net (t + 1) (i + 1) rest selectedServer' minResponseTime'
      in (r, server' # rest', t'))"

definition lrt_pickServer ::
  "network \<Rightarrow> lrt_loadBalancer \<Rightarrow> nat \<Rightarrow> nat option \<times> lrt_loadBalancer \<times> nat" where
  "lrt_pickServer net lb t =
     (let (selectedServer, servers', t') =
            lrt_range net t 0 (lrt_servers lb) None (drop_bit 1 (NOT 0))
      in (selectedServer, lb\<lparr>lrt_servers := servers'\<rparr>, t'))"

definition lrt_serveProxy ::
  "network \<Rightarrow> forward \<Rightarrow> lrt_loadBalancer \<Rightarrow> nat \<Rightarrow> response \<times> lrt_loadBalancer \<times> nat" where
  "lrt_serveProxy net fw lb t =
     (let (targetServer, lb', t') = lrt_pickServer net lb t
      in case targetServer of
           None \<Rightarrow> (HttpError ''Service Unavailable'' StatusServiceUnavailable, lb', t')
         | Some i \<Rightarrow>
             (Forwarded i,
              lb'\<lparr>lrt_servers := (lrt_servers lb')[i := lrt_Serve fw (lrt_servers lb' ! i)]\<rparr>, t'))"

text \<open>
  What the two scans have in common, in the words of the spec: among the alive backends the
  one with the smallest value, the first of them in pool order on a tie. An observation is what
  one turn of the loop sees of a backend: the answer of its probe and the value read.
\<close>

fun least_scan :: "(bool \<times> int) list \<Rightarrow> nat \<Rightarrow> nat option \<Rightarrow> int \<Rightarrow> nat option" where
  "least_scan [] i sel m = sel"
| "least_scan ((alive, v) # rest) i sel m =
     (if alive \<and> v < m then least_scan rest (i + 1) (Some i) v else least_scan rest (i + 1) sel m)"

definition first_least :: "(bool \<times> int) list \<Rightarrow> nat \<Rightarrow> bool" where
  "first_least obs k =
     (k < length obs \<and> fst (obs ! k) \<and>
      (\<forall>k'<length obs. fst (obs ! k') \<longrightarrow> snd (obs ! k) \<le> snd (obs ! k')) \<and>
      (\<forall>k'<k. fst (obs ! k') \<longrightarrow> snd (obs ! k) < snd (obs ! k')))"

fun lc_observe :: "network \<Rightarrow> nat \<Rightarrow> lc_simpleServer list \<Rightarrow> (bool \<times> int) list" where
  "lc_observe net t [] = []"
| "lc_observe net t (s # rest) =
     (IsAlive (net t (lc_addr s)), sint (lc_connections s)) # lc_observe net (t + 1) rest"

fun lrt_observe :: "network \<Rightarrow> nat \<Rightarrow> lrt_simpleServer list \<Rightarrow> (bool \<times> int) list" where
  "lrt_observe net t [] = []"
| "lrt_observe net t (s # rest) =
     (IsAlive (net t (lrt_addr s)), sint (fst (AverageResponseTime s))) # lrt_observe net (t + 1) rest"

text \<open>The answer that the pick started at clock \<open>t\<close> gets from the backend at position \<open>k\<close>:
  the scan probes the backends in pool order, one probe each.\<close>

definition lc_alive :: "network \<Rightarrow> nat \<Rightarrow> lc_loadBalancer \<Rightarrow> nat \<Rightarrow> bool" where
  "lc_alive net t lb k = IsAlive (net (t + k) (lc_addr (lc_servers lb ! k)))"

definition lrt_alive :: "network \<Rightarrow> nat \<Rightarrow> lrt_loadBalancer \<Rightarrow> nat \<Rightarrow> bool" where
  "lrt_alive net t lb k = IsAlive (net (t + k) (lrt_addr (lrt_servers lb ! k)))"

section \<open>Consecutive picks\<close>

text \<open>
  \<open>n\<close> requests served one after the other: each calls \<^verbatim>\<open>pickServer\<close>, on the state the
  previous one left. A pick that does not return is \<open>None\<close>, a panic is \<open>Inl\<close>.
\<close>

fun picks ::
  "('s \<Rightarrow> (panic + nat option \<times> 's) option) \<Rightarrow> nat \<Rightarrow> 's \<Rightarrow> (panic + nat option list \<times> 's) option" where
  "picks pick 0 st = Some (Inr ([], st))"
| "picks pick (Suc n) st =
     (case pick st of
        None \<Rightarrow> None
      | Some (Inl p) \<Rightarrow> Some (Inl p)
      | Some (Inr (r, st')) \<Rightarrow>
          (case picks pick n st' of
             None \<Rightarrow> None
           | Some (Inl p) \<Rightarrow> Some (Inl p)
           | Some (Inr (rs, st'')) \<Rightarrow> Some (Inr (r # rs, st''))))"

section \<open>Round robin\<close>

record rr_simpleServer =
  rr_addr :: string

record rr_loadBalancer =
  rr_port :: string
  roundRobinIndex :: go_int
  rr_servers :: "rr_simpleServer list"

definition rr_newSimpleServer :: "string \<Rightarrow> rr_simpleServer" where
  "rr_newSimpleServer a = \<lparr>rr_addr = a\<rparr>"

definition rr_newLoadBalancer :: "string \<Rightarrow> rr_simpleServer list \<Rightarrow> rr_loadBalancer" where
  "rr_newLoadBalancer port servers = \<lparr>rr_port = port, roundRobinIndex = 0, rr_servers = servers\<rparr>"

text \<open>The \<^verbatim>\<open>for\<close> loop of \<^verbatim>\<open>pickServer\<close>. Nothing in the loop bounds the number of turns, so
  it is a partial function: \<open>None\<close> is a loop that never returns.\<close>

partial_function (option) rr_for ::
  "network \<Rightarrow> go_int \<Rightarrow> rr_loadBalancer \<Rightarrow> nat
     \<Rightarrow> (panic + nat option \<times> rr_loadBalancer \<times> nat) option" where
  "rr_for net startIndex lb t =
     (if len (rr_servers lb) = 0 then Some (Inl DivideByZero)
      else
        let i = go_rem (roundRobinIndex lb) (len (rr_servers lb))
        in if \<not> in_range (rr_servers lb) i then Some (Inl IndexOutOfRange)
           else
             let server = index (rr_servers lb) i;
                 lb' = lb\<lparr>roundRobinIndex := go_rem (roundRobinIndex lb + 1) (len (rr_servers lb))\<rparr>
             in if IsAlive (net t (rr_addr server)) then Some (Inr (Some (nat (sint i)), lb', t + 1))
                else if roundRobinIndex lb' = startIndex then Some (Inr (None, lb', t + 1))
                else rr_for net startIndex lb' (t + 1))"

definition rr_pickServer ::
  "network \<Rightarrow> rr_loadBalancer \<Rightarrow> nat \<Rightarrow> (panic + nat option \<times> rr_loadBalancer \<times> nat) option" where
  "rr_pickServer net lb t = rr_for net (roundRobinIndex lb) lb t"

definition rr_serveProxy ::
  "network \<Rightarrow> rr_loadBalancer \<Rightarrow> nat \<Rightarrow> (panic + response \<times> rr_loadBalancer \<times> nat) option" where
  "rr_serveProxy net lb t =
     (case rr_pickServer net lb t of
        None \<Rightarrow> None
      | Some (Inl p) \<Rightarrow> Some (Inl p)
      | Some (Inr (targetServer, lb', t')) \<Rightarrow>
          (case targetServer of
             None \<Rightarrow> Some (Inr (HttpError ''Service Unavailable'' StatusServiceUnavailable, lb', t'))
           | Some i \<Rightarrow> Some (Inr (Forwarded i, lb', t'))))"

definition rr_picks ::
  "network \<Rightarrow> nat \<Rightarrow> rr_loadBalancer \<times> nat \<Rightarrow> (panic + nat option list \<times> rr_loadBalancer \<times> nat) option" where
  "rr_picks net = picks (\<lambda>(lb, t). rr_pickServer net lb t)"

section \<open>Weighted round robin\<close>

record wrr_simpleServer =
  wrr_addr :: string
  weight :: go_int

record wrr_loadBalancer =
  wrr_port :: string
  currentWeight :: go_int
  currentServer :: go_int
  wrr_servers :: "wrr_simpleServer list"
  weightCounters :: "go_int list"

definition wrr_newSimpleServer :: "string \<Rightarrow> go_int \<Rightarrow> wrr_simpleServer" where
  "wrr_newSimpleServer a w = \<lparr>wrr_addr = a, weight = w\<rparr>"

definition Weight :: "wrr_simpleServer \<Rightarrow> go_int" where
  "Weight s = weight s"

definition wrr_newLoadBalancer :: "string \<Rightarrow> wrr_simpleServer list \<Rightarrow> wrr_loadBalancer" where
  "wrr_newLoadBalancer port servers =
     \<lparr>wrr_port = port, currentWeight = 0, currentServer = 0, wrr_servers = servers,
      weightCounters = map Weight servers\<rparr>"

fun maxWeight_range :: "wrr_simpleServer list \<Rightarrow> go_int \<Rightarrow> go_int" where
  "maxWeight_range [] max' = max'"
| "maxWeight_range (server # rest) max' =
     (if sint (Weight server) > sint max' then maxWeight_range rest (Weight server)
      else maxWeight_range rest max')"

definition maxWeight :: "wrr_simpleServer list \<Rightarrow> go_int" where
  "maxWeight servers = maxWeight_range servers 0"

text \<open>One turn of the loop of \<^verbatim>\<open>pickServer\<close> up to the test of the candidate: the cursor
  moves on, and on a wrap the current weight goes down or is reset. The flag is true where the
  code logs "All servers are down" and returns \<^verbatim>\<open>nil\<close>.\<close>

definition wrr_advance :: "wrr_loadBalancer \<Rightarrow> bool \<times> wrr_loadBalancer" where
  "wrr_advance lb =
     (let lb1 = lb\<lparr>currentServer := go_rem (currentServer lb + 1) (len (wrr_servers lb))\<rparr>
      in if currentServer lb1 = 0 then
           (let lb2 = lb1\<lparr>currentWeight := currentWeight lb1 - 1\<rparr>
            in if sint (currentWeight lb2) \<le> 0 then
                 (let lb3 = lb2\<lparr>currentWeight := maxWeight (wrr_servers lb2)\<rparr>
                  in if currentWeight lb3 = 0 then (True, lb3) else (False, lb3))
               else (False, lb2))
         else (False, lb1))"

partial_function (option) wrr_pickServer ::
  "network \<Rightarrow> wrr_loadBalancer \<Rightarrow> nat \<Rightarrow> (panic + nat option \<times> wrr_loadBalancer \<times> nat) option" where
  "wrr_pickServer net lb t =
     (if len (wrr_servers lb) = 0 then Some (Inl DivideByZero)
      else
        let (all_down, lb') = wrr_advance lb
        in if all_down then Some (Inr (None, lb', t))
           else if \<not> in_range (weightCounters lb') (currentServer lb') then Some (Inl IndexOutOfRange)
           else if sint (index (weightCounters lb') (currentServer lb')) \<ge> sint (currentWeight lb')
           then
             (if \<not> in_range (wrr_servers lb') (currentServer lb') then Some (Inl IndexOutOfRange)
              else if IsAlive (net t (wrr_addr (index (wrr_servers lb') (currentServer lb'))))
              then Some (Inr (Some (nat (sint (currentServer lb'))), lb', t + 1))
              else wrr_pickServer net lb' (t + 1))
           else wrr_pickServer net lb' t)"

definition wrr_serveProxy ::
  "network \<Rightarrow> wrr_loadBalancer \<Rightarrow> nat \<Rightarrow> (panic + response \<times> wrr_loadBalancer \<times> nat) option" where
  "wrr_serveProxy net lb t =
     (case wrr_pickServer net lb t of
        None \<Rightarrow> None
      | Some (Inl p) \<Rightarrow> Some (Inl p)
      | Some (Inr (targetServer, lb', t')) \<Rightarrow>
          (case targetServer of
             None \<Rightarrow> Some (Inr (HttpError ''Service Unavailable'' StatusServiceUnavailable, lb', t'))
           | Some i \<Rightarrow> Some (Inr (Forwarded i, lb', t'))))"

definition wrr_picks ::
  "network \<Rightarrow> nat \<Rightarrow> wrr_loadBalancer \<times> nat
     \<Rightarrow> (panic + nat option list \<times> wrr_loadBalancer \<times> nat) option" where
  "wrr_picks net = picks (\<lambda>(lb, t). wrr_pickServer net lb t)"

section \<open>Source-IP hash (sourceIPHash.go)\<close>

subsection \<open>\<^verbatim>\<open>crypto/md5\<close> and \<^verbatim>\<open>encoding/binary\<close>\<close>

text \<open>
  \<^verbatim>\<open>md5.Sum\<close> is the MD5 digest of RFC 1321 and belongs to Go's standard library, not to the
  repository; it is written out here so that \<^verbatim>\<open>hashIP\<close> is a function of the address alone.
  The message is padded with the byte 0x80, zeros up to 56 modulo 64, and its length in bits
  as 8 little-endian bytes; each block of 16 little-endian words goes through 64 steps.
\<close>

definition md5_shift :: "nat list" where
  "md5_shift =
    [7, 12, 17, 22, 7, 12, 17, 22, 7, 12, 17, 22, 7, 12, 17, 22,
     5, 9, 14, 20, 5, 9, 14, 20, 5, 9, 14, 20, 5, 9, 14, 20,
     4, 11, 16, 23, 4, 11, 16, 23, 4, 11, 16, 23, 4, 11, 16, 23,
     6, 10, 15, 21, 6, 10, 15, 21, 6, 10, 15, 21, 6, 10, 15, 21]"

definition md5_table :: "32 word list" where
  "md5_table =
    [0xd76aa478, 0xe8c7b756, 0x242070db, 0xc1bdceee, 0xf57c0faf, 0x4787c62a, 0xa8304613, 0xfd469501,
     0x698098d8, 0x8b44f7af, 0xffff5bb1, 0x895cd7be, 0x6b901122, 0xfd987193, 0xa679438e, 0x49b40821,
     0xf61e2562, 0xc040b340, 0x265e5a51, 0xe9b6c7aa, 0xd62f105d, 0x02441453, 0xd8a1e681, 0xe7d3fbc8,
     0x21e1cde6, 0xc33707d6, 0xf4d50d87, 0x455a14ed, 0xa9e3e905, 0xfcefa3f8, 0x676f02d9, 0x8d2a4c8a,
     0xfffa3942, 0x8771f681, 0x6d9d6122, 0xfde5380c, 0xa4beea44, 0x4bdecfa9, 0xf6bb4b60, 0xbebfbc70,
     0x289b7ec6, 0xeaa127fa, 0xd4ef3085, 0x04881d05, 0xd9d4d039, 0xe6db99e5, 0x1fa27cf8, 0xc4ac5665,
     0xf4292244, 0x432aff97, 0xab9423a7, 0xfc93a039, 0x655b59c3, 0x8f0ccc92, 0xffeff47d, 0x85845dd1,
     0x6fa87e4f, 0xfe2ce6e0, 0xa3014314, 0x4e0811a1, 0xf7537e82, 0xbd3af235, 0x2ad7d2bb, 0xeb86d391]"

definition le_bytes :: "nat \<Rightarrow> nat \<Rightarrow> 8 word list" where
  "le_bytes k n = map (\<lambda>i. of_nat (n div 256 ^ i)) [0..<k]"

definition md5_pad :: "8 word list \<Rightarrow> 8 word list" where
  "md5_pad msg =
     msg @ [0x80] @ replicate ((119 - length msg mod 64) mod 64) 0 @ le_bytes 8 (8 * length msg)"

definition le_word32 :: "8 word list \<Rightarrow> 32 word" where
  "le_word32 bs = foldr (\<lambda>b w. push_bit 8 w OR ucast b) bs 0"

fun md5_words :: "8 word list \<Rightarrow> 32 word list" where
  "md5_words (b0 # b1 # b2 # b3 # bs) = le_word32 [b0, b1, b2, b3] # md5_words bs"
| "md5_words _ = []"

type_synonym md5_state = "32 word \<times> 32 word \<times> 32 word \<times> 32 word"

definition md5_step :: "32 word list \<Rightarrow> nat \<Rightarrow> md5_state \<Rightarrow> md5_state" where
  "md5_step m i = (\<lambda>(a, b, c, d).
     let (f, g) =
           (if i < 16 then ((b AND c) OR (NOT b AND d), i)
            else if i < 32 then ((d AND b) OR (NOT d AND c), (5 * i + 1) mod 16)
            else if i < 48 then (b XOR c XOR d, (3 * i + 5) mod 16)
            else (c XOR (b OR NOT d), (7 * i) mod 16));
         f' = f + a + md5_table ! i + m ! g
     in (d, b + word_rotl (md5_shift ! i) f', b, c))"

definition md5_block :: "md5_state \<Rightarrow> 32 word list \<Rightarrow> md5_state" where
  "md5_block = (\<lambda>(a0, b0, c0, d0) m.
     let (a, b, c, d) = fold (md5_step m) [0..<64] (a0, b0, c0, d0)
     in (a0 + a, b0 + b, c0 + c, d0 + d))"

fun md5_blocks :: "md5_state \<Rightarrow> 32 word list \<Rightarrow> md5_state" where
  "md5_blocks st ws =
     (if length ws < 16 then st else md5_blocks (md5_block st (take 16 ws)) (drop 16 ws))"

definition word32_le_bytes :: "32 word \<Rightarrow> 8 word list" where
  "word32_le_bytes w = map (\<lambda>i. ucast (drop_bit (8 * i) w)) [0..<4]"

definition md5_Sum :: "8 word list \<Rightarrow> 8 word list" where
  "md5_Sum msg =
     (let (a, b, c, d) =
            md5_blocks (0x67452301, 0xefcdab89, 0x98badcfe, 0x10325476) (md5_words (md5_pad msg))
      in word32_le_bytes a @ word32_le_bytes b @ word32_le_bytes c @ word32_le_bytes d)"

text \<open>\<^verbatim>\<open>binary.BigEndian.Uint32\<close> reads the first four bytes of the slice.\<close>

definition BigEndian_Uint32 :: "8 word list \<Rightarrow> 32 word" where
  "BigEndian_Uint32 b =
     ucast (b ! 3) OR push_bit 8 (ucast (b ! 2)) OR push_bit 16 (ucast (b ! 1)) OR
     push_bit 24 (ucast (b ! 0))"

subsection \<open>The balancer\<close>

record sip_simpleServer =
  sip_addr :: string

record sip_loadBalancer =
  sip_port :: string
  sip_servers :: "sip_simpleServer list"

definition sip_newSimpleServer :: "string \<Rightarrow> sip_simpleServer" where
  "sip_newSimpleServer a = \<lparr>sip_addr = a\<rparr>"

definition sip_newLoadBalancer :: "string \<Rightarrow> sip_simpleServer list \<Rightarrow> sip_loadBalancer" where
  "sip_newLoadBalancer port servers = \<lparr>sip_port = port, sip_servers = servers\<rparr>"

text \<open>A Go string is a sequence of bytes, as an Isabelle \<open>string\<close> is.\<close>

definition hashIP :: "string \<Rightarrow> 32 word" where
  "hashIP ip = BigEndian_Uint32 (md5_Sum (map (\<lambda>c. of_nat (of_char c)) ip))"

text \<open>The \<^verbatim>\<open>for\<close> loop of \<^verbatim>\<open>pickServer\<close>: it probes, and steps to the next position, until a
  probe succeeds.\<close>

partial_function (option) sip_for ::
  "network \<Rightarrow> sip_simpleServer list \<Rightarrow> go_int \<Rightarrow> nat \<Rightarrow> (panic + nat option \<times> nat) option" where
  "sip_for net servers serverIndex t =
     (if \<not> in_range servers serverIndex then Some (Inl IndexOutOfRange)
      else if \<not> IsAlive (net t (sip_addr (index servers serverIndex))) then
        (if len servers = 0 then Some (Inl DivideByZero)
         else sip_for net servers (go_rem (serverIndex + 1) (len servers)) (t + 1))
      else Some (Inr (Some (nat (sint serverIndex)), t + 1)))"

text \<open>\<^verbatim>\<open>int(hashIP(ip))\<close> widens the \<^verbatim>\<open>uint32\<close> to the 64-bit \<^verbatim>\<open>int\<close>.\<close>

definition sip_serverIndex :: "sip_loadBalancer \<Rightarrow> string \<Rightarrow> go_int" where
  "sip_serverIndex lb ip = go_rem (ucast (hashIP ip)) (len (sip_servers lb))"

definition sip_pickServer ::
  "network \<Rightarrow> sip_loadBalancer \<Rightarrow> string \<Rightarrow> nat \<Rightarrow> (panic + nat option \<times> nat) option" where
  "sip_pickServer net lb ip t =
     (if len (sip_servers lb) = 0 then Some (Inl DivideByZero)
      else sip_for net (sip_servers lb) (sip_serverIndex lb ip) t)"

text \<open>The position that the probe number \<open>k\<close> of the loop goes to, counted from 0, when
  the loop starts at \<open>serverIndex\<close>, and the address that probe number \<open>k\<close> of a pick asks.\<close>

fun sip_position :: "sip_simpleServer list \<Rightarrow> go_int \<Rightarrow> nat \<Rightarrow> go_int" where
  "sip_position servers serverIndex 0 = serverIndex"
| "sip_position servers serverIndex (Suc k) =
     sip_position servers (go_rem (serverIndex + 1) (len servers)) k"

definition sip_probed :: "sip_loadBalancer \<Rightarrow> string \<Rightarrow> nat \<Rightarrow> string" where
  "sip_probed lb ip k =
     sip_addr (index (sip_servers lb) (sip_position (sip_servers lb) (sip_serverIndex lb ip) k))"

definition sip_serveProxy ::
  "network \<Rightarrow> sip_loadBalancer \<Rightarrow> string \<Rightarrow> nat \<Rightarrow> (panic + response \<times> nat) option" where
  "sip_serveProxy net lb RemoteAddr t =
     (case sip_pickServer net lb RemoteAddr t of
        None \<Rightarrow> None
      | Some (Inl p) \<Rightarrow> Some (Inl p)
      | Some (Inr (targetServer, t')) \<Rightarrow>
          (case targetServer of
             None \<Rightarrow> Some (Inr (HttpError ''Service Unavailable'' StatusServiceUnavailable, t'))
           | Some i \<Rightarrow> Some (Inr (Forwarded i, t'))))"

section \<open>Example inputs\<close>

text \<open>Two networks, and the pools that the \<^verbatim>\<open>main\<close> functions build; the examples below
  evaluate the programs on them.\<close>

definition all_up :: network where
  "all_up = (\<lambda>t a. GetResponse 200)"

definition all_down :: network where
  "all_down = (\<lambda>t a. GetError)"

definition lc_main :: lc_loadBalancer where
  "lc_main = lc_newLoadBalancer ''8000''
     [lc_newSimpleServer ''https://www.facebook.com'', lc_newSimpleServer ''http://www.bing.com'',
      lc_newSimpleServer ''http://www.duckduckgo.com'']"

text \<open>The same pool with two requests in flight on the first backend and one on each of the
  others.\<close>

definition lc_busy :: lc_loadBalancer where
  "lc_busy = lc_newLoadBalancer ''8000''
     [\<lparr>lc_addr = ''https://www.facebook.com'', lc_connections = 2\<rparr>,
      \<lparr>lc_addr = ''http://www.bing.com'', lc_connections = 1\<rparr>,
      \<lparr>lc_addr = ''http://www.duckduckgo.com'', lc_connections = 1\<rparr>]"

text \<open>The pool of the least-response-time balancer after two requests to the first backend,
  of 4 ms and 6 ms, and none to the others.\<close>

definition lrt_warm :: lrt_loadBalancer where
  "lrt_warm = lrt_newLoadBalancer ''8000''
     [\<lparr>lrt_addr = ''https://www.facebook.com'', lrt_connections = 0,
       totalResponseTime = 10000000, requests = 2\<rparr>,
      lrt_newSimpleServer ''http://www.bing.com'',
      lrt_newSimpleServer ''http://www.duckduckgo.com'']"

text \<open>The pools of the other three \<^verbatim>\<open>main\<close> functions, and a pool of two backends.\<close>

definition lrt_main :: lrt_loadBalancer where
  "lrt_main = lrt_newLoadBalancer ''8000''
     [lrt_newSimpleServer ''https://www.facebook.com'', lrt_newSimpleServer ''http://www.bing.com'',
      lrt_newSimpleServer ''http://www.duckduckgo.com'']"

definition rr_main :: rr_loadBalancer where
  "rr_main = rr_newLoadBalancer ''8000''
     [rr_newSimpleServer ''https://www.facebook.com'', rr_newSimpleServer ''http://www.bing.com'',
      rr_newSimpleServer ''http://www.duckduckgo.com'']"

definition wrr_main :: wrr_loadBalancer where
  "wrr_main = wrr_newLoadBalancer ''8000''
     [wrr_newSimpleServer ''https://www.facebook.com'' 5, wrr_newSimpleServer ''http://www.bing.com'' 3,
      wrr_newSimpleServer ''http://www.duckduckgo.com'' 1]"

definition sip_main :: sip_loadBalancer where
  "sip_main = sip_newLoadBalancer ''8000''
     [sip_newSimpleServer ''https://www.facebook.com'', sip_newSimpleServer ''http://www.bing.com'',
      sip_newSimpleServer ''http://www.duckduckgo.com'']"

definition sip_pair :: sip_loadBalancer where
  "sip_pair = sip_newLoadBalancer ''8000''
     [sip_newSimpleServer ''http://www.bing.com'', sip_newSimpleServer ''http://www.duckduckgo.com'']"

text \<open>A network whose first probe times out and that answers 200 to every later probe, and
  one on which the third backend of \<^verbatim>\<open>main\<close> is down for good.\<close>

definition flaky :: network where
  "flaky = (\<lambda>t a. if t = 0 then GetError else GetResponse 200)"

definition third_down :: network where
  "third_down = (\<lambda>t a. if a = ''http://www.duckduckgo.com'' then GetError else GetResponse 200)"

text \<open>A network for the client 10.0.0.1:5000 on the pool of \<^verbatim>\<open>main\<close>: the probes at the ticks 0
  and 4 time out, every backend answers 200 at the tick 1, and at the tick 5 only the backend
  that the pick for this client probes second does. Every other probe fails.\<close>

definition picky :: network where
  "picky = (\<lambda>t a. if t = 1 \<or> (t = 5 \<and> a = sip_probed sip_main ''10.0.0.1:5000'' 1)
                    then GetResponse 200 else GetError)"

text \<open>The round-robin balancer over three backends with the cursor at \<open>i\<close>; at 0 it is what
  \<^verbatim>\<open>newLoadBalancer\<close> returns.\<close>

definition rr_pool :: "string \<Rightarrow> string \<Rightarrow> string \<Rightarrow> go_int \<Rightarrow> rr_loadBalancer" where
  "rr_pool a b c i =
     (rr_newLoadBalancer ''8000'' [rr_newSimpleServer a, rr_newSimpleServer b, rr_newSimpleServer c])
       \<lparr>roundRobinIndex := i\<rparr>"

text \<open>The weighted balancer over three backends of weights 5, 3 and 1, with the cursor at
  \<open>i\<close> and the current weight \<open>w\<close>; at 0 and 0 it is what \<^verbatim>\<open>newLoadBalancer\<close> returns.\<close>

definition wrr_pool :: "string \<Rightarrow> string \<Rightarrow> string \<Rightarrow> go_int \<Rightarrow> go_int \<Rightarrow> wrr_loadBalancer" where
  "wrr_pool a b c i w =
     (wrr_newLoadBalancer ''8000''
        [wrr_newSimpleServer a 5, wrr_newSimpleServer b 3, wrr_newSimpleServer c 1])
       \<lparr>currentWeight := w, currentServer := i\<rparr>"

text \<open>The order in which that balancer picks once the current weight has been reset, and the
  twelve pairs of cursor and current weight it goes through: the three before the first reset
  and the nine of the cycle.\<close>

definition wrr_cycle :: "nat option list" where
  "wrr_cycle = [Some 0, Some 0, Some 0, Some 1, Some 0, Some 1, Some 0, Some 1, Some 2]"

definition wrr_reached :: "go_int \<times> go_int \<Rightarrow> bool" where
  "wrr_reached iw = (iw \<in> {(0, 0), (1, 0), (2, 0), (0, 5), (0, 4), (0, 3), (1, 3), (0, 2), (1, 2),
     (0, 1), (1, 1), (2, 1)})"

section \<open>Properties of the health probe\<close>

text \<open>
  C8, as stated, at a response 204 No Content: the GET completed without error and the status
  is a success status, yet \<^verbatim>\<open>IsAlive\<close> returns false. The code compares with
  \<^verbatim>\<open>http.StatusOK\<close> alone.
\<close>

theorem IsAlive_204_counterexample:
  "\<not> (IsAlive (GetResponse 204) \<longleftrightarrow>
        completes (GetResponse 204) \<and> success_status (GetResponse 204))"
  by (simp add: StatusOK_def completes_def success_status_def)

text \<open>
  C8, amended: \<^verbatim>\<open>IsAlive\<close> returns true exactly when the GET completes without error and
  the status code is 200 OK. Every error and every other status, a non-success status or a
  success status other than 200, gives false; so a true answer still means a success status.
\<close>

theorem IsAlive_iff_StatusOK:
  "(IsAlive r \<longleftrightarrow> r = GetResponse StatusOK) \<and>
   (IsAlive r \<longrightarrow> completes r \<and> success_status r) \<and>
   (\<not> completes r \<longrightarrow> \<not> IsAlive r) \<and>
   (\<not> success_status r \<longrightarrow> \<not> IsAlive r)"
  by (cases r) (auto simp: StatusOK_def completes_def success_status_def)

theorem IsAlive_iff_StatusOK_witness:
  "IsAlive (GetResponse 200) \<and> completes (GetResponse 200) \<and> success_status (GetResponse 200) \<and>
   \<not> completes GetError \<and> \<not> IsAlive GetError \<and>
   \<not> success_status (GetResponse 503) \<and> \<not> IsAlive (GetResponse 503)"
  using IsAlive_iff_StatusOK [of "GetResponse 200"] IsAlive_iff_StatusOK [of GetError]
    IsAlive_iff_StatusOK [of "GetResponse 503"]
  by (simp add: StatusOK_def completes_def success_status_def)

section \<open>Facts about Go integers\<close>

lemma sint_mask_63: "sint (mask 63 :: go_int) = 9223372036854775807"
  by (simp add: sint_uint signed_take_bit_int_eq_self mask_eq_exp_minus_1)

lemma sint_MaxInt: "sint (drop_bit 1 (NOT 0) :: go_int) = 2 ^ 63 - 1"
  by (simp add: sint_mask_63)

lemma sint_of_nat: "n < 2 ^ 63 \<Longrightarrow> sint (of_nat n :: go_int) = int n"
proof -
  assume n: "n < 2 ^ 63"
  have "sint (of_nat n :: go_int) = signed_take_bit 63 (int n)"
    using sint_sbintrunc' [where 'a = 64, of "int n"] by simp
  also have "\<dots> = int n"
    using n by (intro signed_take_bit_int_eq_self) auto
  finally show ?thesis .
qed

lemma sint_add_of_nat:
  assumes "0 \<le> sint (c :: go_int)" and "sint c + int n < 2 ^ 63"
  shows "sint (c + of_nat n) = sint c + int n"
proof -
  have "int n < 2 ^ 63" using assms by linarith
  then have n: "n < 2 ^ 63" by simp
  have "sint (c + of_nat n) = signed_take_bit 63 (sint c + sint (of_nat n :: go_int))"
    by (simp add: sint_word_add)
  also have "\<dots> = signed_take_bit 63 (sint c + int n)"
    using n by (simp add: sint_of_nat)
  also have "\<dots> = sint c + int n"
    using assms by (intro signed_take_bit_int_eq_self) auto
  finally show ?thesis .
qed

lemma sint_ucast_uint32: "sint (ucast (h :: 32 word) :: go_int) = uint h"
proof -
  have eq: "uint (ucast h :: go_int) = uint h"
    by (simp add: uint_up_ucast is_up)
  have "uint h < 2 ^ 32"
    using uint_lt2p [of h] by simp
  then have "uint h < 2 ^ 63" by simp
  moreover have "(- (2 ^ 63) :: int) \<le> 0" by simp
  then have "- (2 ^ 63) \<le> uint h"
    using uint_ge_0 [of h] by (rule order_trans)
  ultimately have "signed_take_bit 63 (uint h) = uint h"
    by (rule signed_take_bit_int_eq_self [rotated])
  with eq show ?thesis
    by (simp add: sint_uint)
qed

lemma sint_word_of_int_self:
  "- (2 ^ 63) \<le> r \<Longrightarrow> r < 2 ^ 63 \<Longrightarrow> sint (word_of_int r :: go_int) = r"
  by (simp add: sint_sbintrunc' signed_take_bit_int_eq_self)

lemma sint_go_rem:
  assumes "0 \<le> sint a" and "0 < sint b"
  shows "sint (go_rem a b) = sint a mod sint b"
proof -
  have smod: "sint a smod sint b = sint a mod sint b"
    using assms by (simp add: signed_modulo_int_def sgn_if)
  have "0 \<le> sint a mod sint b" "sint a mod sint b < sint b"
    using assms by simp_all
  moreover have "sint b < 2 ^ 63"
    using sint_lt [of b] by simp
  ultimately show ?thesis
    by (simp add: go_rem_def smod sint_word_of_int_self)
qed

lemma sint_succ:
  assumes "0 \<le> sint (i :: go_int)" and "sint i < 2 ^ 63 - 1"
  shows "sint (i + 1) = sint i + 1"
proof -
  have "sint (i + 1) = signed_take_bit 63 (sint i + 1)"
    by (simp add: sint_word_add)
  also have "\<dots> = sint i + 1"
    using assms by (intro signed_take_bit_int_eq_self) auto
  finally show ?thesis .
qed

lemma sint_len: "length xs < 2 ^ 63 \<Longrightarrow> sint (len xs) = int (length xs)"
  by (simp add: len_def sint_of_nat)

lemma len_eq_0_iff: "length xs < 2 ^ 63 \<Longrightarrow> len xs = 0 \<longleftrightarrow> xs = []"
  using sint_len [of xs] by (auto simp: len_def)

lemma in_range_next:
  assumes "in_range xs i" and "length xs < 2 ^ 63"
  shows "in_range xs (go_rem (i + 1) (len xs))"
    and "sint (go_rem (i + 1) (len xs)) = (sint i + 1) mod int (length xs)"
proof -
  from assms have i: "0 \<le> sint i" "sint i < int (length xs)"
    by (simp_all add: in_range_def)
  with assms(2) have "sint i < 2 ^ 63 - 1"
    by (simp add: int_ops)
  with i have succ: "sint (i + 1) = sint i + 1"
    by (simp add: sint_succ)
  from i have ne: "0 < int (length xs)" by linarith
  with assms(2) have pos: "0 < sint (len xs)"
    by (simp add: sint_len)
  have len: "sint (len xs) = int (length xs)"
    using assms(2) by (rule sint_len)
  from succ i pos show "sint (go_rem (i + 1) (len xs)) = (sint i + 1) mod int (length xs)"
    by (simp add: sint_go_rem len)
  with ne show "in_range xs (go_rem (i + 1) (len xs))"
    by (simp add: in_range_def)
qed

lemma word_of_sint: "(w :: go_int) = word_of_int (sint w)"
  by (metis scast_eq scast_id)

section \<open>The least scan\<close>

lemma first_least_Cons_0:
  "first_least ((a, v) # rest) 0 \<longleftrightarrow> a \<and> (\<forall>k<length rest. fst (rest ! k) \<longrightarrow> v \<le> snd (rest ! k))"
  by (auto simp: first_least_def less_Suc_eq_0_disj)

lemma first_least_Cons_Suc:
  "first_least ((a, v) # rest) (Suc k) \<longleftrightarrow>
     first_least rest k \<and> (a \<longrightarrow> snd (rest ! k) < v)"
  by (auto simp: first_least_def less_Suc_eq_0_disj)

lemma least_scan_char:
  "(least_scan obs i sel m = sel \<and> (\<forall>k<length obs. fst (obs ! k) \<longrightarrow> m \<le> snd (obs ! k))) \<or>
   (\<exists>k. least_scan obs i sel m = Some (i + k) \<and> first_least obs k \<and> snd (obs ! k) < m)"
proof (induction obs i sel m rule: least_scan.induct)
  case (1 i sel m)
  then show ?case by simp
next
  case (2 alive v rest i sel m)
  show ?case
  proof (cases "alive \<and> v < m")
    case True
    with 2 have "(least_scan rest (i + 1) (Some i) v = Some i \<and>
        (\<forall>k<length rest. fst (rest ! k) \<longrightarrow> v \<le> snd (rest ! k))) \<or>
      (\<exists>k. least_scan rest (i + 1) (Some i) v = Some (i + 1 + k) \<and> first_least rest k \<and>
        snd (rest ! k) < v)"
      by simp
    then show ?thesis
    proof
      assume "least_scan rest (i + 1) (Some i) v = Some i \<and>
        (\<forall>k<length rest. fst (rest ! k) \<longrightarrow> v \<le> snd (rest ! k))"
      with True have "least_scan ((alive, v) # rest) i sel m = Some (i + 0) \<and>
        first_least ((alive, v) # rest) 0 \<and> snd (((alive, v) # rest) ! 0) < m"
        by (simp add: first_least_Cons_0)
      then show ?thesis by blast
    next
      assume "\<exists>k. least_scan rest (i + 1) (Some i) v = Some (i + 1 + k) \<and> first_least rest k \<and>
        snd (rest ! k) < v"
      then obtain k where "least_scan rest (i + 1) (Some i) v = Some (i + 1 + k)"
        "first_least rest k" "snd (rest ! k) < v"
        by blast
      with True have "least_scan ((alive, v) # rest) i sel m = Some (i + Suc k) \<and>
        first_least ((alive, v) # rest) (Suc k) \<and> snd (((alive, v) # rest) ! Suc k) < m"
        by (simp add: first_least_Cons_Suc)
      then show ?thesis by blast
    qed
  next
    case False
    with 2 have "(least_scan rest (i + 1) sel m = sel \<and>
        (\<forall>k<length rest. fst (rest ! k) \<longrightarrow> m \<le> snd (rest ! k))) \<or>
      (\<exists>k. least_scan rest (i + 1) sel m = Some (i + 1 + k) \<and> first_least rest k \<and>
        snd (rest ! k) < m)"
      by simp
    then show ?thesis
    proof
      assume "least_scan rest (i + 1) sel m = sel \<and>
        (\<forall>k<length rest. fst (rest ! k) \<longrightarrow> m \<le> snd (rest ! k))"
      with False show ?thesis
        by (auto simp: less_Suc_eq_0_disj)
    next
      assume "\<exists>k. least_scan rest (i + 1) sel m = Some (i + 1 + k) \<and> first_least rest k \<and>
        snd (rest ! k) < m"
      then obtain k where "least_scan rest (i + 1) sel m = Some (i + 1 + k)"
        "first_least rest k" "snd (rest ! k) < m"
        by blast
      with False have "least_scan ((alive, v) # rest) i sel m = Some (i + Suc k) \<and>
        first_least ((alive, v) # rest) (Suc k) \<and> snd (((alive, v) # rest) ! Suc k) < m"
        by (auto simp: first_least_Cons_Suc)
      then show ?thesis by blast
    qed
  qed
qed

text \<open>With no backend chosen yet and a bound that some alive backend is below, the scan
  returns the first of the least.\<close>

lemma least_scan_first_least:
  assumes "k < length obs" and "fst (obs ! k)" and "snd (obs ! k) < m"
  shows "\<exists>j. least_scan obs 0 None m = Some j \<and> first_least obs j \<and> snd (obs ! j) < m"
  using least_scan_char [of obs 0 None m] assms by auto

section \<open>Properties of the least-connections pick\<close>

lemma length_lc_observe: "length (lc_observe net t servers) = length servers"
  by (induction servers arbitrary: t) auto

lemma nth_lc_observe:
  "k < length servers \<Longrightarrow>
   lc_observe net t servers ! k =
     (IsAlive (net (t + k) (lc_addr (servers ! k))), sint (lc_connections (servers ! k)))"
  by (induction servers arbitrary: t k) (auto simp: nth_Cons')

lemma lc_range_least_scan:
  "fst (lc_range net t i servers sel m) = least_scan (lc_observe net t servers) i sel (sint m)"
  by (induction servers arbitrary: t i sel m)
     (simp_all add: lc_Connections_def case_prod_beta Let_def)

lemma lc_range_frame:
  "snd (lc_range net t i servers sel m) = (servers, t + length servers)"
  by (induction servers arbitrary: t i sel m)
     (simp_all add: lc_Connections_def case_prod_beta Let_def)

lemma lc_pickServer_frame: "snd (lc_pickServer net lb t) = (lb, t + length (lc_servers lb))"
  by (simp add: lc_pickServer_def case_prod_beta Let_def lc_range_frame)

lemma lc_pickServer_least_scan:
  "fst (lc_pickServer net lb t) =
     least_scan (lc_observe net t (lc_servers lb)) 0 None (2 ^ 63 - 1)"
  by (simp add: lc_pickServer_def case_prod_beta Let_def lc_range_least_scan sint_mask_63)

text \<open>
  C3: when a backend of the pool is alive, the least-connections pick returns an alive backend
  whose connections count, as the scan reads it, is at most the count of every alive backend,
  and strictly below the count of every alive backend before it in pool order: the first of
  those that share the minimum. The scan starts from the largest \<^verbatim>\<open>int\<close> and takes a backend
  only when its count is strictly smaller, so the alive backend of the hypothesis has a count
  below the largest \<^verbatim>\<open>int\<close>, as every count has that requests in flight can produce.
\<close>

theorem lc_pickServer_least:
  assumes "k < length (lc_servers lb)" and "lc_alive net t lb k"
    and "sint (lc_connections (lc_servers lb ! k)) < 2 ^ 63 - 1"
  shows "\<exists>j<length (lc_servers lb).
           fst (lc_pickServer net lb t) = Some j \<and> lc_alive net t lb j \<and>
           (\<forall>k'<length (lc_servers lb). lc_alive net t lb k' \<longrightarrow>
              sint (lc_connections (lc_servers lb ! j)) \<le> sint (lc_connections (lc_servers lb ! k'))) \<and>
           (\<forall>k'<j. lc_alive net t lb k' \<longrightarrow>
              sint (lc_connections (lc_servers lb ! j)) < sint (lc_connections (lc_servers lb ! k')))"
proof -
  let ?obs = "lc_observe net t (lc_servers lb)"
  have "\<exists>j. least_scan ?obs 0 None (2 ^ 63 - 1) = Some j \<and> first_least ?obs j \<and>
          snd (?obs ! j) < 2 ^ 63 - 1"
    using assms
    by (intro least_scan_first_least [of k]) (simp_all add: length_lc_observe nth_lc_observe lc_alive_def)
  then obtain j where j: "least_scan ?obs 0 None (2 ^ 63 - 1) = Some j" "first_least ?obs j"
    by blast
  from j(2) have "j < length (lc_servers lb)"
    by (simp add: first_least_def length_lc_observe)
  moreover from j(1) have "fst (lc_pickServer net lb t) = Some j"
    by (simp add: lc_pickServer_least_scan)
  moreover from j(2) \<open>j < length (lc_servers lb)\<close> have "lc_alive net t lb j"
    by (simp add: first_least_def length_lc_observe nth_lc_observe lc_alive_def)
  moreover from j(2) \<open>j < length (lc_servers lb)\<close>
  have "\<forall>k'<length (lc_servers lb). lc_alive net t lb k' \<longrightarrow>
      sint (lc_connections (lc_servers lb ! j)) \<le> sint (lc_connections (lc_servers lb ! k'))"
    by (simp add: first_least_def length_lc_observe nth_lc_observe lc_alive_def)
  moreover from j(2) \<open>j < length (lc_servers lb)\<close>
  have "\<forall>k'<j. lc_alive net t lb k' \<longrightarrow>
      sint (lc_connections (lc_servers lb ! j)) < sint (lc_connections (lc_servers lb ! k'))"
    by (simp add: first_least_def length_lc_observe nth_lc_observe lc_alive_def)
  ultimately show ?thesis by blast
qed



theorem lc_pickServer_least_witness:
  "1 < length (lc_servers lc_busy) \<and> lc_alive all_up 0 lc_busy 1 \<and>
   sint (lc_connections (lc_servers lc_busy ! 1)) < 2 ^ 63 - 1 \<and>
   fst (lc_pickServer all_up lc_busy 0) = Some 1"
  using lc_pickServer_least [of 1 lc_busy all_up 0]
  by (simp add: lc_busy_def lc_newLoadBalancer_def all_up_def lc_alive_def lc_pickServer_def
      lc_Connections_def StatusOK_def sint_mask_63)

section \<open>Properties of the connections counter\<close>

lemma lc_event_connections:
  "lc_event e (s, n) = Some (s', n') \<Longrightarrow>
   lc_connections s' - of_nat n' = lc_connections s - of_nat n \<and> lc_addr s' = lc_addr s"
  by (cases e)
     (auto simp: lc_IncrementConnection_def lc_DecrementConnection_def of_nat_diff split: if_splits)

lemma lc_events_connections:
  "lc_events evs (s, n) = Some (s', n') \<Longrightarrow>
   lc_connections s' - of_nat n' = lc_connections s - of_nat n \<and> lc_addr s' = lc_addr s"
proof (induction evs arbitrary: s n)
  case Nil
  then show ?case by simp
next
  case (Cons e evs)
  then obtain s1 n1 where step: "lc_event e (s, n) = Some (s1, n1)"
    and rest: "lc_events evs (s1, n1) = Some (s', n')"
    by (auto split: option.splits)
  from lc_event_connections [OF step] Cons.IH [OF rest] show ?case by simp
qed

lemma lc_Serve_events: "lc_events [Enter, Leave fw] (s, n) = Some (lc_Serve fw s, n)"
  by (cases fw) (simp_all add: lc_Serve_def)

lemma lc_Serve_connections: "lc_connections (lc_Serve fw s) = lc_connections s"
  by (cases fw) (simp_all add: lc_Serve_def lc_IncrementConnection_def lc_DecrementConnection_def)

lemma lc_fold_Serve_connections: "lc_connections (fold lc_Serve fws s) = lc_connections s"
  by (induction fws arbitrary: s) (simp_all add: lc_Serve_connections)

text \<open>
  C6: take any run of \<^verbatim>\<open>Serve\<close> calls on a backend, interleaved in any way, from a state with
  no call inside, and let \<open>n\<close> calls be inside at its end. The counter is then its value
  before the run plus \<open>n\<close>: it is back at that value once all forwards have completed, whether
  they returned or failed, and it is not negative at any point of the run when it was not
  negative before (the counter is a 64-bit \<^verbatim>\<open>int\<close>, so this is for fewer than \<open>2\<^sup>6\<^sup>3\<close> calls
  inside at once). Calls made one after the other leave the counter as it was.
\<close>

theorem lc_connections_balanced:
  assumes "lc_events evs (s, 0) = Some (s', n)"
  shows "lc_connections s' = lc_connections s + of_nat n \<and>
         (n = 0 \<longrightarrow> lc_connections s' = lc_connections s) \<and>
         (0 \<le> sint (lc_connections s) \<and> sint (lc_connections s) + int n < 2 ^ 63 \<longrightarrow>
            sint (lc_connections s') = sint (lc_connections s) + int n \<and>
            0 \<le> sint (lc_connections s')) \<and>
         lc_connections (fold lc_Serve fws s) = lc_connections s"
proof -
  from lc_events_connections [OF assms]
  have eq: "lc_connections s' = lc_connections s + of_nat n"
    by (simp add: algebra_simps)
  then show ?thesis
    by (auto simp: sint_add_of_nat lc_fold_Serve_connections)
qed


theorem lc_connections_balanced_witness:
  "lc_events [Enter, Enter, Leave Panics] (lc_newSimpleServer ''http://www.bing.com'', 0) =
     Some (\<lparr>lc_addr = ''http://www.bing.com'', lc_connections = 1\<rparr>, 1) \<and>
   sint (lc_connections \<lparr>lc_addr = ''http://www.bing.com'', lc_connections = 1\<rparr>) = 1 \<and>
   lc_events [Enter, Enter, Leave Panics, Leave (Returns 7)] (lc_newSimpleServer ''http://www.bing.com'', 0) =
     Some (lc_newSimpleServer ''http://www.bing.com'', 0)"
  using lc_connections_balanced
    [of "[Enter, Enter, Leave Panics]" "lc_newSimpleServer ''http://www.bing.com''"
        "\<lparr>lc_addr = ''http://www.bing.com'', lc_connections = 1\<rparr>" 1 "[]"]
  by (simp add: lc_newSimpleServer_def lc_IncrementConnection_def lc_DecrementConnection_def)

section \<open>The picks that only read\<close>

lemma lrt_range_frame:
  "snd (lrt_range net t i servers sel m) = (servers, t + length servers)"
  by (induction servers arbitrary: t i sel m)
     (simp_all add: AverageResponseTime_def case_prod_beta Let_def)

lemma lrt_pickServer_frame: "snd (lrt_pickServer net lb t) = (lb, t + length (lrt_servers lb))"
  by (simp add: lrt_pickServer_def case_prod_beta Let_def lrt_range_frame)

text \<open>
  C9: the least-connections pick and the least-response-time pick return the balancer, and in
  it every backend with its connections count, total response time and request count, as they
  got it, for every pool and every answer of the probes; the clock has moved by one probe for
  each backend. In \<^verbatim>\<open>serveProxy\<close> the backends change through \<^verbatim>\<open>Serve\<close> of the chosen backend
  alone, and not at all when none is chosen.
\<close>

theorem pickServer_frame:
  "snd (lc_pickServer net lb t) = (lb, t + length (lc_servers lb)) \<and>
   snd (lrt_pickServer net' lb' t') = (lb', t' + length (lrt_servers lb')) \<and>
   fst (snd (lc_serveProxy net fw lb t)) =
     (case fst (lc_pickServer net lb t) of
        None \<Rightarrow> lb
      | Some i \<Rightarrow> lb\<lparr>lc_servers := (lc_servers lb)[i := lc_Serve fw (lc_servers lb ! i)]\<rparr>) \<and>
   fst (snd (lrt_serveProxy net' fw' lb' t')) =
     (case fst (lrt_pickServer net' lb' t') of
        None \<Rightarrow> lb'
      | Some i \<Rightarrow> lb'\<lparr>lrt_servers := (lrt_servers lb')[i := lrt_Serve fw' (lrt_servers lb' ! i)]\<rparr>)"
proof -
  obtain r where r: "lc_pickServer net lb t = (r, lb, t + length (lc_servers lb))"
    using lc_pickServer_frame [of net lb t] by (cases "lc_pickServer net lb t") simp
  obtain r' where r': "lrt_pickServer net' lb' t' = (r', lb', t' + length (lrt_servers lb'))"
    using lrt_pickServer_frame [of net' lb' t'] by (cases "lrt_pickServer net' lb' t'") simp
  show ?thesis
    by (simp add: lc_serveProxy_def lrt_serveProxy_def r r' split: option.splits)
qed

theorem pickServer_frame_witness:
  "lc_pickServer all_up lc_busy 0 = (Some 1, lc_busy, 3) \<and>
   lc_serveProxy all_up Panics lc_busy 0 = (Forwarded 1, lc_busy, 3) \<and>
   lc_serveProxy all_down Panics lc_busy 0 =
     (HttpError ''Service Unavailable'' StatusServiceUnavailable, lc_busy, 3) \<and>
   lrt_pickServer all_up lrt_warm 0 = (Some 1, lrt_warm, 3)"
  using pickServer_frame [of all_up lc_busy 0 all_up lrt_warm 0 Panics Panics]
    pickServer_frame [of all_down lc_busy 0 all_up lrt_warm 0 Panics Panics]
  by (simp add: lc_busy_def lc_newLoadBalancer_def lrt_warm_def lrt_newLoadBalancer_def
      lrt_newSimpleServer_def all_up_def all_down_def lc_pickServer_def lrt_pickServer_def
      lc_serveProxy_def lc_Serve_def lc_IncrementConnection_def lc_DecrementConnection_def
      lc_Connections_def AverageResponseTime_def StatusOK_def sint_mask_63 go_quo_def
      signed_divide_int_def)

section \<open>Properties of the least-response-time pick\<close>

lemma length_lrt_observe: "length (lrt_observe net t servers) = length servers"
  by (induction servers arbitrary: t) auto

lemma nth_lrt_observe:
  "k < length servers \<Longrightarrow>
   lrt_observe net t servers ! k =
     (IsAlive (net (t + k) (lrt_addr (servers ! k))), sint (fst (AverageResponseTime (servers ! k))))"
  by (induction servers arbitrary: t k) (auto simp: nth_Cons')

lemma lrt_range_least_scan:
  "fst (lrt_range net t i servers sel m) = least_scan (lrt_observe net t servers) i sel (sint m)"
  by (induction servers arbitrary: t i sel m)
     (simp_all add: case_prod_beta Let_def)

lemma lrt_pickServer_least_scan:
  "fst (lrt_pickServer net lb t) =
     least_scan (lrt_observe net t (lrt_servers lb)) 0 None (2 ^ 63 - 1)"
  by (simp add: lrt_pickServer_def case_prod_beta Let_def lrt_range_least_scan sint_mask_63)

lemma AverageResponseTime_no_requests: "requests s = 0 \<Longrightarrow> fst (AverageResponseTime s) = 0"
  by (simp add: AverageResponseTime_def)

lemma sint_0_iff: "sint (w :: go_int) = 0 \<longleftrightarrow> w = 0"
  by (metis signed_eq_0_iff)

text \<open>
  C7: a backend with no recorded request has the average response time zero. So when such a
  backend is alive at position \<open>j\<close>, the least-response-time pick returns the first alive
  backend whose average is zero, which is at \<open>j\<close> or before it. Averages are elapsed times:
  the pool is one where no alive backend has a negative average.
\<close>

theorem lrt_never_measured_favoured:
  assumes j: "j < length (lrt_servers lb)" "lrt_alive net t lb j" "requests (lrt_servers lb ! j) = 0"
    and nonneg: "\<forall>k<length (lrt_servers lb). lrt_alive net t lb k \<longrightarrow>
                   0 \<le> sint (fst (AverageResponseTime (lrt_servers lb ! k)))"
  shows "fst (AverageResponseTime (lrt_servers lb ! j)) = 0 \<and>
         (\<exists>i\<le>j. fst (lrt_pickServer net lb t) = Some i \<and> lrt_alive net t lb i \<and>
            fst (AverageResponseTime (lrt_servers lb ! i)) = 0 \<and>
            (\<forall>k<i. lrt_alive net t lb k \<longrightarrow> fst (AverageResponseTime (lrt_servers lb ! k)) \<noteq> 0))"
proof -
  let ?obs = "lrt_observe net t (lrt_servers lb)"
  let ?avg = "\<lambda>k. sint (fst (AverageResponseTime (lrt_servers lb ! k)))"
  have zero: "fst (AverageResponseTime (lrt_servers lb ! j)) = 0"
    using j(3) by (rule AverageResponseTime_no_requests)
  have "\<exists>i. least_scan ?obs 0 None (2 ^ 63 - 1) = Some i \<and> first_least ?obs i \<and>
          snd (?obs ! i) < 2 ^ 63 - 1"
    using j zero
    by (intro least_scan_first_least [of j]) (simp_all add: length_lrt_observe nth_lrt_observe lrt_alive_def)
  then obtain i where i: "least_scan ?obs 0 None (2 ^ 63 - 1) = Some i" "first_least ?obs i"
    by blast
  from i(2) have len: "i < length (lrt_servers lb)"
    by (simp add: first_least_def length_lrt_observe)
  from i(2) len have alive: "lrt_alive net t lb i"
    by (simp add: first_least_def length_lrt_observe nth_lrt_observe lrt_alive_def)
  from i(2) len have least: "\<forall>k<length (lrt_servers lb). lrt_alive net t lb k \<longrightarrow> ?avg i \<le> ?avg k"
    by (simp add: first_least_def length_lrt_observe nth_lrt_observe lrt_alive_def)
  from i(2) len have first: "\<forall>k<i. lrt_alive net t lb k \<longrightarrow> ?avg i < ?avg k"
    by (simp add: first_least_def length_lrt_observe nth_lrt_observe lrt_alive_def)
  from least j zero have "?avg i \<le> 0" by fastforce
  moreover from nonneg len alive have "0 \<le> ?avg i" by blast
  ultimately have avg0: "?avg i = 0" by simp
  have "i \<le> j"
  proof (rule ccontr)
    assume "\<not> i \<le> j"
    then have "j < i" by simp
    with first j(2) have "?avg i < ?avg j" by blast
    with zero avg0 show False by simp
  qed
  moreover from i(1) have "fst (lrt_pickServer net lb t) = Some i"
    by (simp add: lrt_pickServer_least_scan)
  moreover from avg0 have "fst (AverageResponseTime (lrt_servers lb ! i)) = 0"
    by (simp add: sint_0_iff)
  moreover from first avg0
  have "\<forall>k<i. lrt_alive net t lb k \<longrightarrow> fst (AverageResponseTime (lrt_servers lb ! k)) \<noteq> 0"
    by fastforce
  ultimately show ?thesis using zero alive by blast
qed


theorem lrt_never_measured_favoured_witness:
  "2 < length (lrt_servers lrt_warm) \<and> lrt_alive all_up 0 lrt_warm 2 \<and>
   requests (lrt_servers lrt_warm ! 2) = 0 \<and>
   fst (AverageResponseTime (lrt_servers lrt_warm ! 0)) = 5000000 \<and>
   fst (AverageResponseTime (lrt_servers lrt_warm ! 1)) = 0 \<and>
   fst (AverageResponseTime (lrt_servers lrt_warm ! 2)) = 0 \<and>
   fst (lrt_pickServer all_up lrt_warm 0) = Some 1"
  using lrt_never_measured_favoured [of 2 lrt_warm all_up 0]
  by (simp add: lrt_warm_def lrt_newLoadBalancer_def lrt_newSimpleServer_def all_up_def
      lrt_alive_def lrt_pickServer_def AverageResponseTime_def StatusOK_def sint_mask_63
      go_quo_def signed_divide_int_def)

section \<open>Properties of the source-IP-hash pick\<close>

lemma sip_serverIndex_sint:
  assumes "sip_servers lb \<noteq> []" and "length (sip_servers lb) < 2 ^ 63"
  shows "sint (sip_serverIndex lb ip) = uint (hashIP ip) mod int (length (sip_servers lb))"
  using assms by (simp add: sip_serverIndex_def sint_go_rem sint_ucast_uint32 sint_len)

lemma sip_serverIndex_in_range_aux:
  assumes "sip_servers lb \<noteq> []" and "length (sip_servers lb) < 2 ^ 63"
  shows "in_range (sip_servers lb) (sip_serverIndex lb ip)"
  using assms by (simp add: in_range_def sip_serverIndex_sint)

text \<open>From a position in range the loop never panics.\<close>

lemma sip_for_no_panic:
  assumes "sip_for net servers i t = Some y"
  shows "in_range servers i \<longrightarrow> length servers < 2 ^ 63 \<longrightarrow> (\<forall>p. y \<noteq> Inl p)"
proof (induct rule: sip_for.raw_induct [OF _ assms])
  case (1 f net servers serverIndex t y)
  show ?case
  proof (intro impI)
    assume r: "in_range servers serverIndex" and l: "length servers < 2 ^ 63"
    then have ne: "len servers \<noteq> 0"
      by (auto simp: len_eq_0_iff in_range_def)
    show "\<forall>p. y \<noteq> Inl p"
    proof (cases "IsAlive (net t (sip_addr (index servers serverIndex)))")
      case True
      with 1(2) r show ?thesis by auto
    next
      case False
      with 1(2) r ne have "f net servers (go_rem (serverIndex + 1) (len servers)) (t + 1) = Some y"
        by simp
      from 1(1) [OF this] in_range_next(1) [OF r l] l show ?thesis by blast
    qed
  qed
qed

text \<open>When every probe fails the loop does not return.\<close>

lemma sip_for_all_down:
  assumes "sip_for net servers i t = Some y"
  shows "in_range servers i \<longrightarrow> length servers < 2 ^ 63 \<longrightarrow>
         (\<exists>t' k. k < length servers \<and> IsAlive (net t' (sip_addr (servers ! k))))"
proof (induct rule: sip_for.raw_induct [OF _ assms])
  case (1 f net servers serverIndex t y)
  show ?case
  proof (intro impI)
    assume r: "in_range servers serverIndex" and l: "length servers < 2 ^ 63"
    then have ne: "len servers \<noteq> 0"
      by (auto simp: len_eq_0_iff in_range_def)
    show "\<exists>t' k. k < length servers \<and> IsAlive (net t' (sip_addr (servers ! k)))"
    proof (cases "IsAlive (net t (sip_addr (index servers serverIndex)))")
      case True
      moreover from r have "nat (sint serverIndex) < length servers"
        by (auto simp: in_range_def)
      ultimately show ?thesis
        unfolding index_def by blast
    next
      case False
      with 1(2) r ne have "f net servers (go_rem (serverIndex + 1) (len servers)) (t + 1) = Some y"
        by simp
      from 1(1) [OF this] in_range_next(1) [OF r l] l show ?thesis by blast
    qed
  qed
qed

lemma sip_pickServer_no_panic:
  assumes "sip_servers lb \<noteq> []" and "length (sip_servers lb) < 2 ^ 63"
  shows "sip_pickServer net lb ip t \<noteq> Some (Inl p)"
proof
  assume "sip_pickServer net lb ip t = Some (Inl p)"
  with assms have "sip_for net (sip_servers lb) (sip_serverIndex lb ip) t = Some (Inl p)"
    by (simp add: sip_pickServer_def len_eq_0_iff)
  from sip_for_no_panic [OF this] sip_serverIndex_in_range_aux [OF assms] assms(2)
  show False by blast
qed

text \<open>
  C10: for a non-empty pool (a Go slice, so its length fits an \<^verbatim>\<open>int\<close>) and every address
  string, the \<^verbatim>\<open>uint32\<close> of \<^verbatim>\<open>hashIP\<close> is not negative as an \<^verbatim>\<open>int\<close>, the starting index is at
  least 0 and less than the size of the pool, and \<^verbatim>\<open>pickServer\<close> never panics: every index it
  uses is in bounds.
\<close>

theorem sip_serverIndex_in_range:
  assumes "sip_servers lb \<noteq> []" and "length (sip_servers lb) < 2 ^ 63"
  shows "0 \<le> sint (ucast (hashIP ip) :: go_int) \<and>
         0 \<le> sint (sip_serverIndex lb ip) \<and>
         sint (sip_serverIndex lb ip) < int (length (sip_servers lb)) \<and>
         (\<forall>p. sip_pickServer net lb ip t \<noteq> Some (Inl p))"
  using sip_serverIndex_in_range_aux [OF assms, of ip] sip_pickServer_no_panic [OF assms]
  by (simp add: in_range_def sint_ucast_uint32)

theorem sip_serverIndex_in_range_witness:
  "sip_servers sip_main \<noteq> [] \<and> length (sip_servers sip_main) < 2 ^ 63 \<and>
   0 \<le> sint (sip_serverIndex sip_main ''10.0.0.1:5000'') \<and>
   sint (sip_serverIndex sip_main ''10.0.0.1:5000'') < 3 \<and>
   sip_pickServer all_up sip_main ''10.0.0.1:5000'' 0 \<noteq> Some (Inl IndexOutOfRange)"
  using sip_serverIndex_in_range [of sip_main "''10.0.0.1:5000''" all_up 0]
  by (simp add: sip_main_def sip_newLoadBalancer_def)

lemma sip_for_replay:
  assumes run: "sip_for net servers i t = Some y"
  shows "\<forall>j t'. y = Inr (Some j, t') \<longrightarrow>
           t < t' \<and>
           (\<forall>t2. (\<forall>k<t' - t.
                    IsAlive (net (t2 + k) (sip_addr (index servers (sip_position servers i k)))) =
                    IsAlive (net (t + k) (sip_addr (index servers (sip_position servers i k))))) \<longrightarrow>
                 sip_for net servers i t2 = Some (Inr (Some j, t2 + (t' - t))))"
proof (induct rule: sip_for.raw_induct [OF _ run])
  case (1 f net servers i t y)
  let ?a = "\<lambda>i k. sip_addr (index servers (sip_position servers i k))"
  let ?next = "go_rem (i + 1) (len servers)"
  show ?case
  proof (intro allI impI)
    fix j t'
    assume y: "y = Inr (Some j, t')"
    with 1(2) have r: "in_range servers i"
      by (auto split: if_splits)
    show "t < t' \<and>
      (\<forall>t2. (\<forall>k<t' - t. IsAlive (net (t2 + k) (?a i k)) = IsAlive (net (t + k) (?a i k))) \<longrightarrow>
            sip_for net servers i t2 = Some (Inr (Some j, t2 + (t' - t))))"
    proof (cases "IsAlive (net t (sip_addr (index servers i)))")
      case True
      with 1(2) r y have jt: "j = nat (sint i)" "t' = t + 1"
        by simp_all
      have "sip_for net servers i t2 = Some (Inr (Some j, t2 + (t' - t)))"
        if "\<forall>k<t' - t. IsAlive (net (t2 + k) (?a i k)) = IsAlive (net (t + k) (?a i k))" for t2
      proof -
        from that jt have "IsAlive (net (t2 + 0) (?a i 0)) = IsAlive (net (t + 0) (?a i 0))"
          by simp
        with True have "IsAlive (net t2 (sip_addr (index servers i)))"
          by simp
        with r jt show ?thesis
          by (subst sip_for.simps) simp
      qed
      with jt show ?thesis by simp
    next
      case False
      with 1(2) r y have ne: "len servers \<noteq> 0"
        and rec: "f net servers ?next (t + 1) = Some y"
        by (auto split: if_splits)
      from 1(1) [OF rec] y
      have lt: "t + 1 < t'"
        and ih: "\<And>t2. (\<forall>k<t' - (t + 1).
                    IsAlive (net (t2 + k) (?a ?next k)) = IsAlive (net (t + 1 + k) (?a ?next k))) \<Longrightarrow>
                  sip_for net servers ?next t2 = Some (Inr (Some j, t2 + (t' - (t + 1))))"
        by blast+
      have "sip_for net servers i t2 = Some (Inr (Some j, t2 + (t' - t)))"
        if same: "\<forall>k<t' - t. IsAlive (net (t2 + k) (?a i k)) = IsAlive (net (t + k) (?a i k))" for t2
      proof -
        from lt have "0 < t' - t" by simp
        with same have "IsAlive (net (t2 + 0) (?a i 0)) = IsAlive (net (t + 0) (?a i 0))"
          by blast
        with False have dead: "\<not> IsAlive (net t2 (sip_addr (index servers i)))"
          by simp
        have "\<forall>k<t' - (t + 1).
            IsAlive (net (t2 + 1 + k) (?a ?next k)) = IsAlive (net (t + 1 + k) (?a ?next k))"
        proof (intro allI impI)
          fix k
          assume "k < t' - (t + 1)"
          then have "Suc k < t' - t" by simp
          with same have "IsAlive (net (t2 + Suc k) (?a i (Suc k))) =
              IsAlive (net (t + Suc k) (?a i (Suc k)))"
            by blast
          then show "IsAlive (net (t2 + 1 + k) (?a ?next k)) = IsAlive (net (t + 1 + k) (?a ?next k))"
            by simp
        qed
        from ih [OF this] have "sip_for net servers ?next (t2 + 1) =
            Some (Inr (Some j, t2 + 1 + (t' - (t + 1))))" .
        moreover from lt have "t2 + 1 + (t' - (t + 1)) = t2 + (t' - t)"
          by simp
        ultimately show ?thesis
          using r dead ne by (subst sip_for.simps) simp
      qed
      with lt show ?thesis by simp
    qed
  qed
qed

text \<open>
  C4, amended: two calls of the source-IP-hash pick with the same address on the same pool
  return the same backend, after the same number of probes, when every probe of the second
  call is answered as the matching probe of the first call was. The probes compared are the
  ones the pick makes: probe number \<open>k\<close> of each call goes to the backend at \<open>sip_probed lb ip k\<close>,
  and what any other backend would answer does not matter.
\<close>

theorem sip_pickServer_replay:
  assumes "sip_pickServer net lb ip t1 = Some (Inr (Some j, t1'))"
    and "\<forall>k<t1' - t1. IsAlive (net (t2 + k) (sip_probed lb ip k)) =
                        IsAlive (net (t1 + k) (sip_probed lb ip k))"
  shows "sip_pickServer net lb ip t2 = Some (Inr (Some j, t2 + (t1' - t1)))"
proof -
  from assms(1) have ne: "len (sip_servers lb) \<noteq> 0"
    and run: "sip_for net (sip_servers lb) (sip_serverIndex lb ip) t1 = Some (Inr (Some j, t1'))"
    by (auto simp: sip_pickServer_def split: if_splits)
  from sip_for_replay [OF run] assms(2)
  have "sip_for net (sip_servers lb) (sip_serverIndex lb ip) t2 = Some (Inr (Some j, t2 + (t1' - t1)))"
    unfolding sip_probed_def by blast
  with ne show ?thesis
    by (simp add: sip_pickServer_def)
qed

lemma sip_pickServer_all_up:
  assumes "sip_servers lb \<noteq> []" and "length (sip_servers lb) < 2 ^ 63"
  shows "sip_pickServer all_up lb ip t = Some (Inr (Some (nat (sint (sip_serverIndex lb ip))), t + 1))"
  using assms sip_serverIndex_in_range_aux [OF assms, of ip]
  by (simp add: sip_pickServer_def len_eq_0_iff sip_for.simps all_up_def StatusOK_def)

text \<open>The pick for the client 10.0.0.1:5000 on the pool of \<^verbatim>\<open>main\<close>, started at the tick 0 of
  the network \<open>picky\<close>: the first probe times out, the second succeeds.\<close>

lemma sip_pickServer_picky_0:
  "sip_pickServer picky sip_main ''10.0.0.1:5000'' 0 =
     Some (Inr (Some (nat (sint (sip_position (sip_servers sip_main)
       (sip_serverIndex sip_main ''10.0.0.1:5000'') 1))), 2))"
proof -
  let ?servers = "sip_servers sip_main"
  let ?i = "sip_serverIndex sip_main ''10.0.0.1:5000''"
  have ne: "?servers \<noteq> []" and l: "length ?servers < 2 ^ 63"
    by (simp_all add: sip_main_def sip_newLoadBalancer_def)
  have r0: "in_range ?servers ?i"
    using ne l by (rule sip_serverIndex_in_range_aux)
  have r1: "in_range ?servers (go_rem (?i + 1) (len ?servers))"
    using r0 l by (rule in_range_next(1))
  have len: "len ?servers \<noteq> 0"
    using ne l by (simp add: len_eq_0_iff)
  have dead: "\<not> IsAlive (picky 0 a)" and alive: "IsAlive (picky 1 a)" for a
    by (simp_all add: picky_def StatusOK_def)
  have "sip_for picky ?servers (go_rem (?i + 1) (len ?servers)) 1 =
      Some (Inr (Some (nat (sint (go_rem (?i + 1) (len ?servers)))), 2))"
    using r1 alive by (subst sip_for.simps) simp
  then have "sip_for picky ?servers ?i 0 =
      Some (Inr (Some (nat (sint (go_rem (?i + 1) (len ?servers)))), 2))"
    using r0 dead len by (subst sip_for.simps) simp
  with len show ?thesis
    by (simp add: sip_pickServer_def)
qed

text \<open>On \<open>picky\<close> a backend of the pool that this pick does not probe second answers at the
  tick 1 and not at the tick 5: the two calls of the example below agree on the probes made,
  not on the whole network.\<close>

lemma picky_unprobed_flaps:
  "\<exists>a \<in> sip_addr ` set (sip_servers sip_main). IsAlive (picky 1 a) \<and> \<not> IsAlive (picky 5 a)"
  by (cases "sip_probed sip_main ''10.0.0.1:5000'' 1 = ''https://www.facebook.com''")
     (auto simp: picky_def sip_main_def sip_newLoadBalancer_def sip_newSimpleServer_def StatusOK_def)

theorem sip_pickServer_replay_witness:
  "sip_pickServer picky sip_main ''10.0.0.1:5000'' 0 =
     Some (Inr (Some (nat (sint (sip_position (sip_servers sip_main)
       (sip_serverIndex sip_main ''10.0.0.1:5000'') 1))), 2)) \<and>
   \<not> IsAlive (picky 0 (sip_probed sip_main ''10.0.0.1:5000'' 0)) \<and>
   \<not> IsAlive (picky 4 (sip_probed sip_main ''10.0.0.1:5000'' 0)) \<and>
   IsAlive (picky 1 (sip_probed sip_main ''10.0.0.1:5000'' 1)) \<and>
   IsAlive (picky 5 (sip_probed sip_main ''10.0.0.1:5000'' 1)) \<and>
   sip_pickServer picky sip_main ''10.0.0.1:5000'' 4 =
     Some (Inr (Some (nat (sint (sip_position (sip_servers sip_main)
       (sip_serverIndex sip_main ''10.0.0.1:5000'') 1))), 6))"
proof -
  note first = sip_pickServer_picky_0
  have probes: "\<not> IsAlive (picky 0 (sip_probed sip_main ''10.0.0.1:5000'' 0))"
    "\<not> IsAlive (picky 4 (sip_probed sip_main ''10.0.0.1:5000'' 0))"
    "IsAlive (picky 1 (sip_probed sip_main ''10.0.0.1:5000'' 1))"
    "IsAlive (picky 5 (sip_probed sip_main ''10.0.0.1:5000'' 1))"
    by (simp_all add: picky_def StatusOK_def)
  have same: "\<forall>k<2 - 0. IsAlive (picky (4 + k) (sip_probed sip_main ''10.0.0.1:5000'' k)) =
      IsAlive (picky (0 + k) (sip_probed sip_main ''10.0.0.1:5000'' k))"
    using probes by (simp add: less_Suc_eq numeral_2_eq_2)
  from sip_pickServer_replay [OF first same] first probes show ?thesis by simp
qed

lemma sip_pair_index:
  "sip_serverIndex sip_pair ip = 0 \<or> sip_serverIndex sip_pair ip = 1"
proof -
  have "in_range (sip_servers sip_pair) (sip_serverIndex sip_pair ip)"
    by (rule sip_serverIndex_in_range_aux) (simp_all add: sip_pair_def sip_newLoadBalancer_def)
  then have "sint (sip_serverIndex sip_pair ip) = 0 \<or> sint (sip_serverIndex sip_pair ip) = 1"
    by (auto simp: in_range_def sip_pair_def sip_newLoadBalancer_def)
  then show ?thesis
  proof
    assume "sint (sip_serverIndex sip_pair ip) = 0"
    with word_of_sint [of "sip_serverIndex sip_pair ip"] show ?thesis by simp
  next
    assume "sint (sip_serverIndex sip_pair ip) = 1"
    with word_of_sint [of "sip_serverIndex sip_pair ip"] show ?thesis by simp
  qed
qed

lemma sip_for_pair_flaky_0:
  "sip_for flaky (sip_servers sip_pair) 0 0 = Some (Inr (Some 1, 2))"
  "sip_for flaky (sip_servers sip_pair) 1 0 = Some (Inr (Some 0, 2))"
  "sip_for flaky (sip_servers sip_pair) 0 2 = Some (Inr (Some 0, 3))"
  "sip_for flaky (sip_servers sip_pair) 1 2 = Some (Inr (Some 1, 3))"
  by (simp_all add: sip_for.simps sip_pair_def sip_newLoadBalancer_def sip_newSimpleServer_def
      flaky_def in_range_def index_def len_def go_rem_def signed_modulo_int_def StatusOK_def)

text \<open>
  C4, as stated, on a pool of two backends: the first probe of the first call times out, so
  that call returns the backend after the one the address hashes to; that backend is alive
  from then on, and the second call returns the other one, which answers again. Whichever
  position \<open>s\<close> the address hashes to, the two calls differ.
\<close>

theorem sip_pickServer_not_sticky_counterexample:
  "(let s = nat (sint (sip_serverIndex sip_pair ''10.0.0.1:5000''))
    in sip_pickServer flaky sip_pair ''10.0.0.1:5000'' 0 = Some (Inr (Some (1 - s), 2)) \<and>
       IsAlive (flaky 2 (sip_addr (sip_servers sip_pair ! (1 - s)))) \<and>
       sip_pickServer flaky sip_pair ''10.0.0.1:5000'' 2 = Some (Inr (Some s, 3)) \<and>
       s \<noteq> 1 - s)"
proof -
  have ne: "len (sip_servers sip_pair) \<noteq> 0"
    by (simp add: sip_pair_def sip_newLoadBalancer_def len_def)
  have alive: "IsAlive (flaky 2 a)" for a
    by (simp add: flaky_def StatusOK_def)
  from sip_pair_index [of "''10.0.0.1:5000''"] show ?thesis
    by (auto simp: Let_def sip_pickServer_def ne alive sip_for_pair_flaky_0)
qed

section \<open>Properties of the round-robin pick\<close>

lemma rr_pool_step:
  assumes "\<forall>t. IsAlive (net t a)" and "\<forall>t. IsAlive (net t b)" and "\<forall>t. \<not> IsAlive (net t c)"
  shows "rr_pickServer net (rr_pool a b c 0) t = Some (Inr (Some 0, rr_pool a b c 1, t + 1))"
    and "rr_pickServer net (rr_pool a b c 1) t = Some (Inr (Some 1, rr_pool a b c 2, t + 1))"
    and "rr_pickServer net (rr_pool a b c 2) t = Some (Inr (Some 0, rr_pool a b c 1, t + 2))"
  using assms
  by (simp_all add: rr_pickServer_def rr_for.simps rr_pool_def rr_newLoadBalancer_def
      rr_newSimpleServer_def in_range_def index_def len_def go_rem_def signed_modulo_int_def)

lemma rr_picks_Suc:
  "rr_pickServer net lb t = Some (Inr (r, lb', t')) \<Longrightarrow>
   rr_picks net n (lb', t') = Some (Inr (rs, st)) \<Longrightarrow>
   rr_picks net (Suc n) (lb, t) = Some (Inr (r # rs, st))"
  by (simp add: rr_picks_def)

lemma rr_pool_picks:
  assumes "\<forall>t. IsAlive (net t a)" and "\<forall>t. IsAlive (net t b)" and "\<forall>t. \<not> IsAlive (net t c)"
    and "i = 0 \<or> i = 1 \<or> i = 2"
  shows "\<exists>rs st. rr_picks net n (rr_pool a b c i, t) = Some (Inr (rs, st)) \<and> length rs = n \<and>
           set rs \<subseteq> {Some 0, Some 1}"
  using assms(4)
proof (induction n arbitrary: i t)
  case 0
  then show ?case by (simp add: rr_picks_def)
next
  case (Suc n)
  note step = rr_pool_step [OF assms(1-3)]
  have "\<exists>r i' t'. rr_pickServer net (rr_pool a b c i) t = Some (Inr (Some r, rr_pool a b c i', t')) \<and>
          (r = 0 \<or> r = 1) \<and> (i' = 0 \<or> i' = 1 \<or> i' = 2)"
  proof -
    from Suc.prems consider "i = 0" | "i = 1" | "i = 2" by blast
    then show ?thesis
    proof cases
      case 1
      with step(1) [of t] show ?thesis by blast
    next
      case 2
      with step(2) [of t] show ?thesis by blast
    next
      case 3
      with step(3) [of t] show ?thesis by blast
    qed
  qed
  then obtain r i' t' where
    pick: "rr_pickServer net (rr_pool a b c i) t = Some (Inr (Some r, rr_pool a b c i', t'))"
    and r: "r = 0 \<or> r = 1" and i': "i' = 0 \<or> i' = 1 \<or> i' = 2"
    by blast
  from Suc.IH [OF i', of t'] obtain rs st where
    rest: "rr_picks net n (rr_pool a b c i', t') = Some (Inr (rs, st))" "length rs = n"
      "set rs \<subseteq> {Some 0, Some 1}"
    by blast
  from rr_picks_Suc [OF pick rest(1)] rest(2,3) r show ?case by auto
qed

text \<open>
  C5: on the pool of A, B and C with the cursor at 0, where every probe of A and of B succeeds
  and every probe of C fails, three consecutive picks return A, B and A; the third one probes C,
  moves the cursor past it and returns A, leaving the cursor at 1. However many picks follow
  one another, none returns C and none returns \<^verbatim>\<open>nil\<close>.
\<close>

theorem rr_skips_dead_backend:
  assumes "\<forall>t. IsAlive (net t a)" and "\<forall>t. IsAlive (net t b)" and "\<forall>t. \<not> IsAlive (net t c)"
  shows "rr_pool a b c 0 =
           rr_newLoadBalancer ''8000'' [rr_newSimpleServer a, rr_newSimpleServer b, rr_newSimpleServer c] \<and>
         rr_picks net 3 (rr_pool a b c 0, t) = Some (Inr ([Some 0, Some 1, Some 0], rr_pool a b c 1, t + 4)) \<and>
         (\<forall>n. \<exists>rs st. rr_picks net n (rr_pool a b c 0, t) = Some (Inr (rs, st)) \<and> length rs = n \<and>
                  Some 2 \<notin> set rs \<and> None \<notin> set rs)"
proof -
  note step = rr_pool_step [OF assms]
  have "rr_picks net 3 (rr_pool a b c 0, t) =
          Some (Inr ([Some 0, Some 1, Some 0], rr_pool a b c 1, t + 4))"
    by (simp add: rr_picks_def step numeral_3_eq_3)
  moreover have "\<exists>rs st. rr_picks net n (rr_pool a b c 0, t) = Some (Inr (rs, st)) \<and> length rs = n \<and>
                  Some 2 \<notin> set rs \<and> None \<notin> set rs" for n
    using rr_pool_picks [OF assms, of 0 n t] by fastforce
  moreover have "rr_pool a b c 0 =
      rr_newLoadBalancer ''8000'' [rr_newSimpleServer a, rr_newSimpleServer b, rr_newSimpleServer c]"
    by (simp add: rr_pool_def rr_newLoadBalancer_def)
  ultimately show ?thesis by blast
qed

theorem rr_skips_dead_backend_witness:
  "rr_pool ''https://www.facebook.com'' ''http://www.bing.com'' ''http://www.duckduckgo.com'' 0 = rr_main \<and>
   rr_picks third_down 3 (rr_main, 0) =
     Some (Inr ([Some 0, Some 1, Some 0],
       rr_pool ''https://www.facebook.com'' ''http://www.bing.com'' ''http://www.duckduckgo.com'' 1, 4))"
proof -
  have init: "rr_pool ''https://www.facebook.com'' ''http://www.bing.com'' ''http://www.duckduckgo.com'' 0 =
      rr_main"
    by (simp add: rr_pool_def rr_main_def rr_newLoadBalancer_def)
  have up: "\<forall>t. IsAlive (third_down t ''https://www.facebook.com'')"
    "\<forall>t. IsAlive (third_down t ''http://www.bing.com'')"
    and down: "\<forall>t. \<not> IsAlive (third_down t ''http://www.duckduckgo.com'')"
    by (simp_all add: third_down_def StatusOK_def)
  from rr_skips_dead_backend [where net = third_down and a = "''https://www.facebook.com''"
      and b = "''http://www.bing.com''" and c = "''http://www.duckduckgo.com''" and t = 0, OF up down]
  have "rr_picks third_down 3
      (rr_pool ''https://www.facebook.com'' ''http://www.bing.com'' ''http://www.duckduckgo.com'' 0, 0) =
    Some (Inr ([Some 0, Some 1, Some 0],
      rr_pool ''https://www.facebook.com'' ''http://www.bing.com'' ''http://www.duckduckgo.com'' 1, 0 + 4))"
    by blast
  with init show ?thesis by simp
qed

section \<open>Properties of the weighted round-robin pick\<close>

lemma maxWeight_pool:
  "maxWeight [\<lparr>wrr_addr = a, weight = 5\<rparr>, \<lparr>wrr_addr = b, weight = 3\<rparr>,
      \<lparr>wrr_addr = c, weight = 1\<rparr>] = 5"
  by (simp add: maxWeight_def Weight_def)

lemma wrr_pool_step:
  assumes "\<forall>t. IsAlive (net t a)" and "\<forall>t. IsAlive (net t b)" and "\<forall>t. IsAlive (net t c)"
  shows "wrr_pickServer net (wrr_pool a b c 0 0) t = Some (Inr (Some 1, wrr_pool a b c 1 0, t + 1))"
    and "wrr_pickServer net (wrr_pool a b c 1 0) t = Some (Inr (Some 2, wrr_pool a b c 2 0, t + 1))"
    and "wrr_pickServer net (wrr_pool a b c 2 0) t = Some (Inr (Some 0, wrr_pool a b c 0 5, t + 1))"
    and "wrr_pickServer net (wrr_pool a b c 0 5) t = Some (Inr (Some 0, wrr_pool a b c 0 4, t + 1))"
    and "wrr_pickServer net (wrr_pool a b c 0 4) t = Some (Inr (Some 0, wrr_pool a b c 0 3, t + 1))"
    and "wrr_pickServer net (wrr_pool a b c 0 3) t = Some (Inr (Some 1, wrr_pool a b c 1 3, t + 1))"
    and "wrr_pickServer net (wrr_pool a b c 1 3) t = Some (Inr (Some 0, wrr_pool a b c 0 2, t + 1))"
    and "wrr_pickServer net (wrr_pool a b c 0 2) t = Some (Inr (Some 1, wrr_pool a b c 1 2, t + 1))"
    and "wrr_pickServer net (wrr_pool a b c 1 2) t = Some (Inr (Some 0, wrr_pool a b c 0 1, t + 1))"
    and "wrr_pickServer net (wrr_pool a b c 0 1) t = Some (Inr (Some 1, wrr_pool a b c 1 1, t + 1))"
    and "wrr_pickServer net (wrr_pool a b c 1 1) t = Some (Inr (Some 2, wrr_pool a b c 2 1, t + 1))"
    and "wrr_pickServer net (wrr_pool a b c 2 1) t = Some (Inr (Some 0, wrr_pool a b c 0 5, t + 1))"
  using assms
  by (simp_all add: wrr_pickServer.simps wrr_advance_def wrr_pool_def wrr_newLoadBalancer_def
      maxWeight_pool Weight_def wrr_newSimpleServer_def in_range_def index_def len_def go_rem_def
      signed_modulo_int_def Let_def)

lemma picks_Suc:
  "pick st = Some (Inr (r, st')) \<Longrightarrow> picks pick n st' = Some (Inr (rs, st'')) \<Longrightarrow>
   picks pick (Suc n) st = Some (Inr (r # rs, st''))"
  by simp

lemma picks_add:
  "picks pick m st = Some (Inr (rs, st')) \<Longrightarrow> picks pick n st' = Some (Inr (rs', st'')) \<Longrightarrow>
   picks pick (m + n) st = Some (Inr (rs @ rs', st''))"
proof (induction m arbitrary: st rs)
  case 0
  then show ?case by simp
next
  case (Suc m)
  from Suc.prems(1) obtain r st1 rs1 where
    pick: "pick st = Some (Inr (r, st1))" and rest: "picks pick m st1 = Some (Inr (rs1, st'))"
    and rs: "rs = r # rs1"
    by (auto split: option.splits sum.splits)
  from Suc.IH [OF rest Suc.prems(2)] pick rs show ?case by simp
qed

lemma wrr_pool_step_reached:
  assumes "\<forall>t. IsAlive (net t a)" and "\<forall>t. IsAlive (net t b)" and "\<forall>t. IsAlive (net t c)"
    and "wrr_reached (i, w)"
  shows "\<exists>r i' w'. wrr_pickServer net (wrr_pool a b c i w) t =
            Some (Inr (r, wrr_pool a b c i' w', t + 1)) \<and> wrr_reached (i', w')"
proof -
  note step = wrr_pool_step [OF assms(1-3)]
  from assms(4) consider "i = 0 \<and> w = 0" | "i = 1 \<and> w = 0" | "i = 2 \<and> w = 0" | "i = 0 \<and> w = 5"
    | "i = 0 \<and> w = 4" | "i = 0 \<and> w = 3" | "i = 1 \<and> w = 3" | "i = 0 \<and> w = 2" | "i = 1 \<and> w = 2"
    | "i = 0 \<and> w = 1" | "i = 1 \<and> w = 1" | "i = 2 \<and> w = 1"
    by (auto simp: wrr_reached_def)
  then show ?thesis
  proof cases
    case 1 with step(1) [of t] show ?thesis by (auto simp: wrr_reached_def)
  next
    case 2 with step(2) [of t] show ?thesis by (auto simp: wrr_reached_def)
  next
    case 3 with step(3) [of t] show ?thesis by (auto simp: wrr_reached_def)
  next
    case 4 with step(4) [of t] show ?thesis by (auto simp: wrr_reached_def)
  next
    case 5 with step(5) [of t] show ?thesis by (auto simp: wrr_reached_def)
  next
    case 6 with step(6) [of t] show ?thesis by (auto simp: wrr_reached_def)
  next
    case 7 with step(7) [of t] show ?thesis by (auto simp: wrr_reached_def)
  next
    case 8 with step(8) [of t] show ?thesis by (auto simp: wrr_reached_def)
  next
    case 9 with step(9) [of t] show ?thesis by (auto simp: wrr_reached_def)
  next
    case 10 with step(10) [of t] show ?thesis by (auto simp: wrr_reached_def)
  next
    case 11 with step(11) [of t] show ?thesis by (auto simp: wrr_reached_def)
  next
    case 12 with step(12) [of t] show ?thesis by (auto simp: wrr_reached_def)
  qed
qed

lemma wrr_pool_picks_reached:
  assumes "\<forall>t. IsAlive (net t a)" and "\<forall>t. IsAlive (net t b)" and "\<forall>t. IsAlive (net t c)"
    and "wrr_reached (i, w)"
  shows "\<exists>rs i' w'. wrr_picks net k (wrr_pool a b c i w, t) =
            Some (Inr (rs, wrr_pool a b c i' w', t + k)) \<and> length rs = k \<and> wrr_reached (i', w')"
  using assms(4)
proof (induction k arbitrary: i w t)
  case 0
  then show ?case by (auto simp: wrr_picks_def)
next
  case (Suc k)
  from wrr_pool_step_reached [OF assms(1-3) Suc.prems, of t] obtain r i1 w1 where
    pick: "wrr_pickServer net (wrr_pool a b c i w) t = Some (Inr (r, wrr_pool a b c i1 w1, t + 1))"
    and reached: "wrr_reached (i1, w1)"
    by blast
  from Suc.IH [OF reached, of "t + 1"] obtain rs i' w' where
    rest: "wrr_picks net k (wrr_pool a b c i1 w1, t + 1) =
      Some (Inr (rs, wrr_pool a b c i' w', t + 1 + k))" "length rs = k" "wrr_reached (i', w')"
    by blast
  from pick rest(1) have "wrr_picks net (Suc k) (wrr_pool a b c i w, t) =
      Some (Inr (r # rs, wrr_pool a b c i' w', t + Suc k))"
    by (simp add: wrr_picks_def)
  with rest(2,3) show ?case by auto
qed

lemma nine: "(9::nat) = Suc (Suc (Suc (Suc (Suc (Suc (Suc (Suc (Suc 0))))))))"
  by simp

lemma picks_nine:
  "picks pick 9 st = picks pick (Suc (Suc (Suc (Suc (Suc (Suc (Suc (Suc (Suc 0))))))))) st"
  by (simp only: nine)

lemma wrr_cycle_rotate:
  "rotate 0 wrr_cycle = [Some 0, Some 0, Some 0, Some 1, Some 0, Some 1, Some 0, Some 1, Some 2]"
  "rotate 1 wrr_cycle = [Some 0, Some 0, Some 1, Some 0, Some 1, Some 0, Some 1, Some 2, Some 0]"
  "rotate 2 wrr_cycle = [Some 0, Some 1, Some 0, Some 1, Some 0, Some 1, Some 2, Some 0, Some 0]"
  "rotate 3 wrr_cycle = [Some 1, Some 0, Some 1, Some 0, Some 1, Some 2, Some 0, Some 0, Some 0]"
  "rotate 4 wrr_cycle = [Some 0, Some 1, Some 0, Some 1, Some 2, Some 0, Some 0, Some 0, Some 1]"
  "rotate 5 wrr_cycle = [Some 1, Some 0, Some 1, Some 2, Some 0, Some 0, Some 0, Some 1, Some 0]"
  "rotate 6 wrr_cycle = [Some 0, Some 1, Some 2, Some 0, Some 0, Some 0, Some 1, Some 0, Some 1]"
  "rotate 7 wrr_cycle = [Some 1, Some 2, Some 0, Some 0, Some 0, Some 1, Some 0, Some 1, Some 0]"
  "rotate 8 wrr_cycle = [Some 2, Some 0, Some 0, Some 0, Some 1, Some 0, Some 1, Some 0, Some 1]"
  by (simp_all add: wrr_cycle_def numeral_eq_Suc)

lemma wrr_pool_nine:
  assumes "\<forall>t. IsAlive (net t a)" and "\<forall>t. IsAlive (net t b)" and "\<forall>t. IsAlive (net t c)"
  shows "wrr_picks net 9 (wrr_pool a b c 0 0, t) =
       Some (Inr (rotate 7 wrr_cycle, wrr_pool a b c 0 1, t + 9))"
    and "wrr_picks net 9 (wrr_pool a b c 1 0, t) =
       Some (Inr (rotate 8 wrr_cycle, wrr_pool a b c 1 1, t + 9))"
    and "wrr_picks net 9 (wrr_pool a b c 2 0, t) =
       Some (Inr (rotate 0 wrr_cycle, wrr_pool a b c 2 1, t + 9))"
    and "wrr_picks net 9 (wrr_pool a b c 0 5, t) =
       Some (Inr (rotate 1 wrr_cycle, wrr_pool a b c 0 5, t + 9))"
    and "wrr_picks net 9 (wrr_pool a b c 0 4, t) =
       Some (Inr (rotate 2 wrr_cycle, wrr_pool a b c 0 4, t + 9))"
    and "wrr_picks net 9 (wrr_pool a b c 0 3, t) =
       Some (Inr (rotate 3 wrr_cycle, wrr_pool a b c 0 3, t + 9))"
    and "wrr_picks net 9 (wrr_pool a b c 1 3, t) =
       Some (Inr (rotate 4 wrr_cycle, wrr_pool a b c 1 3, t + 9))"
    and "wrr_picks net 9 (wrr_pool a b c 0 2, t) =
       Some (Inr (rotate 5 wrr_cycle, wrr_pool a b c 0 2, t + 9))"
    and "wrr_picks net 9 (wrr_pool a b c 1 2, t) =
       Some (Inr (rotate 6 wrr_cycle, wrr_pool a b c 1 2, t + 9))"
    and "wrr_picks net 9 (wrr_pool a b c 0 1, t) =
       Some (Inr (rotate 7 wrr_cycle, wrr_pool a b c 0 1, t + 9))"
    and "wrr_picks net 9 (wrr_pool a b c 1 1, t) =
       Some (Inr (rotate 8 wrr_cycle, wrr_pool a b c 1 1, t + 9))"
    and "wrr_picks net 9 (wrr_pool a b c 2 1, t) =
       Some (Inr (rotate 0 wrr_cycle, wrr_pool a b c 2 1, t + 9))"
  unfolding wrr_picks_def picks_nine wrr_cycle_rotate
  by (simp_all add: wrr_pool_step [OF assms])

lemma wrr_pool_nine_reached:
  assumes "\<forall>t. IsAlive (net t a)" and "\<forall>t. IsAlive (net t b)" and "\<forall>t. IsAlive (net t c)"
    and "wrr_reached (i, w)"
  shows "\<exists>m<9. \<exists>st. wrr_picks net 9 (wrr_pool a b c i w, t) = Some (Inr (rotate m wrr_cycle, st))"
proof -
  note nine = wrr_pool_nine [OF assms(1-3), of t]
  from assms(4) consider "i = 0 \<and> w = 0" | "i = 1 \<and> w = 0" | "i = 2 \<and> w = 0" | "i = 0 \<and> w = 5"
    | "i = 0 \<and> w = 4" | "i = 0 \<and> w = 3" | "i = 1 \<and> w = 3" | "i = 0 \<and> w = 2" | "i = 1 \<and> w = 2"
    | "i = 0 \<and> w = 1" | "i = 1 \<and> w = 1" | "i = 2 \<and> w = 1"
    by (auto simp: wrr_reached_def)
  then show ?thesis
  proof cases
    case 1
    with nine(1) have "7 < (9::nat) \<and>
        wrr_picks net 9 (wrr_pool a b c i w, t) = Some (Inr (rotate 7 wrr_cycle, wrr_pool a b c 0 1, t + 9))"
      by simp
    then show ?thesis by blast
  next
    case 2
    with nine(2) have "8 < (9::nat) \<and>
        wrr_picks net 9 (wrr_pool a b c i w, t) = Some (Inr (rotate 8 wrr_cycle, wrr_pool a b c 1 1, t + 9))"
      by simp
    then show ?thesis by blast
  next
    case 3
    with nine(3) have "0 < (9::nat) \<and>
        wrr_picks net 9 (wrr_pool a b c i w, t) = Some (Inr (rotate 0 wrr_cycle, wrr_pool a b c 2 1, t + 9))"
      by simp
    then show ?thesis by blast
  next
    case 4
    with nine(4) have "1 < (9::nat) \<and>
        wrr_picks net 9 (wrr_pool a b c i w, t) = Some (Inr (rotate 1 wrr_cycle, wrr_pool a b c 0 5, t + 9))"
      by simp
    then show ?thesis by blast
  next
    case 5
    with nine(5) have "2 < (9::nat) \<and>
        wrr_picks net 9 (wrr_pool a b c i w, t) = Some (Inr (rotate 2 wrr_cycle, wrr_pool a b c 0 4, t + 9))"
      by simp
    then show ?thesis by blast
  next
    case 6
    with nine(6) have "3 < (9::nat) \<and>
        wrr_picks net 9 (wrr_pool a b c i w, t) = Some (Inr (rotate 3 wrr_cycle, wrr_pool a b c 0 3, t + 9))"
      by simp
    then show ?thesis by blast
  next
    case 7
    with nine(7) have "4 < (9::nat) \<and>
        wrr_picks net 9 (wrr_pool a b c i w, t) = Some (Inr (rotate 4 wrr_cycle, wrr_pool a b c 1 3, t + 9))"
      by simp
    then show ?thesis by blast
  next
    case 8
    with nine(8) have "5 < (9::nat) \<and>
        wrr_picks net 9 (wrr_pool a b c i w, t) = Some (Inr (rotate 5 wrr_cycle, wrr_pool a b c 0 2, t + 9))"
      by simp
    then show ?thesis by blast
  next
    case 9
    with nine(9) have "6 < (9::nat) \<and>
        wrr_picks net 9 (wrr_pool a b c i w, t) = Some (Inr (rotate 6 wrr_cycle, wrr_pool a b c 1 2, t + 9))"
      by simp
    then show ?thesis by blast
  next
    case 10
    with nine(10) have "7 < (9::nat) \<and>
        wrr_picks net 9 (wrr_pool a b c i w, t) = Some (Inr (rotate 7 wrr_cycle, wrr_pool a b c 0 1, t + 9))"
      by simp
    then show ?thesis by blast
  next
    case 11
    with nine(11) have "8 < (9::nat) \<and>
        wrr_picks net 9 (wrr_pool a b c i w, t) = Some (Inr (rotate 8 wrr_cycle, wrr_pool a b c 1 1, t + 9))"
      by simp
    then show ?thesis by blast
  next
    case 12
    with nine(12) have "0 < (9::nat) \<and>
        wrr_picks net 9 (wrr_pool a b c i w, t) = Some (Inr (rotate 0 wrr_cycle, wrr_pool a b c 2 1, t + 9))"
      by simp
    then show ?thesis by blast
  qed
qed

lemma wrr_cycle_counts:
  assumes "m < 9"
  shows "count_list (rotate m wrr_cycle) (Some 0) = 5 \<and> count_list (rotate m wrr_cycle) (Some 1) = 3 \<and>
         count_list (rotate m wrr_cycle) (Some 2) = 1 \<and>
         rotate m wrr_cycle \<noteq> replicate 5 (Some 0) @ replicate 3 (Some 1) @ [Some 2]"
proof -
  from assms consider "m = 0" | "m = 1" | "m = 2" | "m = 3" | "m = 4" | "m = 5" | "m = 6" | "m = 7"
    | "m = 8"
    by linarith
  then show ?thesis
    by cases (simp_all only: wrr_cycle_rotate, simp_all add: numeral_eq_Suc)
qed

text \<open>
  C2: the weighted balancer built over backends of weights 5, 3 and 1, all of them alive at
  every probe. Whatever the number \<open>k\<close> of picks made before, the next nine picks return the
  backend of weight 5 five times, that of weight 3 three times and that of weight 1 once. They
  do so interleaved: the nine are a rotation of A, A, A, B, A, B, A, B, C, never five times A,
  then three times B, then C.
\<close>

theorem wrr_window_of_nine:
  assumes "\<forall>t. IsAlive (net t a)" and "\<forall>t. IsAlive (net t b)" and "\<forall>t. IsAlive (net t c)"
  shows "\<exists>rs st.
           wrr_picks net (k + 9)
             (wrr_newLoadBalancer ''8000''
                [wrr_newSimpleServer a 5, wrr_newSimpleServer b 3, wrr_newSimpleServer c 1], t) =
             Some (Inr (rs, st)) \<and>
           length rs = k + 9 \<and>
           count_list (drop k rs) (Some 0) = 5 \<and>
           count_list (drop k rs) (Some 1) = 3 \<and>
           count_list (drop k rs) (Some 2) = 1 \<and>
           drop k rs \<noteq> replicate 5 (Some 0) @ replicate 3 (Some 1) @ [Some 2] \<and>
           (\<exists>m<9. drop k rs = rotate m wrr_cycle)"
proof -
  have init: "wrr_newLoadBalancer ''8000''
      [wrr_newSimpleServer a 5, wrr_newSimpleServer b 3, wrr_newSimpleServer c 1] = wrr_pool a b c 0 0"
    by (simp add: wrr_pool_def wrr_newLoadBalancer_def)
  have start: "wrr_reached (0, 0)"
    by (simp add: wrr_reached_def)
  from wrr_pool_picks_reached [OF assms start, of k t] obtain rs1 i w where
    first: "wrr_picks net k (wrr_pool a b c 0 0, t) = Some (Inr (rs1, wrr_pool a b c i w, t + k))"
    and len: "length rs1 = k" and reached: "wrr_reached (i, w)"
    by blast
  from wrr_pool_nine_reached [OF assms reached, of "t + k"] obtain m st where
    m: "m < 9"
    and window: "wrr_picks net 9 (wrr_pool a b c i w, t + k) = Some (Inr (rotate m wrr_cycle, st))"
    by blast
  from first window have "wrr_picks net (k + 9) (wrr_pool a b c 0 0, t) =
      Some (Inr (rs1 @ rotate m wrr_cycle, st))"
    unfolding wrr_picks_def by (rule picks_add)
  moreover have "length (rs1 @ rotate m wrr_cycle) = k + 9"
    using len by (simp add: wrr_cycle_def)
  moreover have "drop k (rs1 @ rotate m wrr_cycle) = rotate m wrr_cycle"
    using len by simp
  ultimately show ?thesis
    using wrr_cycle_counts [OF m] m unfolding init by metis
qed

theorem wrr_window_of_nine_witness:
  "wrr_picks all_up 9 (wrr_main, 0) =
     Some (Inr ([Some 1, Some 2, Some 0, Some 0, Some 0, Some 1, Some 0, Some 1, Some 0],
       wrr_pool ''https://www.facebook.com'' ''http://www.bing.com'' ''http://www.duckduckgo.com'' 0 1, 9))"
proof -
  have up: "\<forall>t. IsAlive (all_up t a)" for a
    by (simp add: all_up_def StatusOK_def)
  have init: "wrr_main =
      wrr_pool ''https://www.facebook.com'' ''http://www.bing.com'' ''http://www.duckduckgo.com'' 0 0"
    by (simp add: wrr_main_def wrr_pool_def wrr_newLoadBalancer_def)
  from wrr_window_of_nine [where net = all_up and k = 0 and t = 0
      and a = "''https://www.facebook.com''" and b = "''http://www.bing.com''"
      and c = "''http://www.duckduckgo.com''", OF up up up]
    wrr_pool_nine(1) [where net = all_up and t = 0 and a = "''https://www.facebook.com''"
      and b = "''http://www.bing.com''" and c = "''http://www.duckduckgo.com''", OF up up up]
  show ?thesis
    by (simp add: init wrr_cycle_rotate)
qed

section \<open>When every backend is down\<close>

lemma sip_pickServer_never_returns:
  assumes "sip_servers lb \<noteq> []" and "length (sip_servers lb) < 2 ^ 63"
    and "\<forall>t k. k < length (sip_servers lb) \<longrightarrow> \<not> IsAlive (net t (sip_addr (sip_servers lb ! k)))"
  shows "sip_pickServer net lb ip t = None"
proof (cases "sip_pickServer net lb ip t")
  case None
  then show ?thesis .
next
  case (Some y)
  with assms(1,2) have "sip_for net (sip_servers lb) (sip_serverIndex lb ip) t = Some y"
    by (simp add: sip_pickServer_def len_eq_0_iff)
  from sip_for_all_down [OF this] sip_serverIndex_in_range_aux [OF assms(1,2)] assms(2,3)
  show ?thesis by blast
qed

lemma wrr_advance_servers:
  "wrr_servers (snd (wrr_advance lb)) = wrr_servers lb"
  "weightCounters (snd (wrr_advance lb)) = weightCounters lb"
  "currentServer (snd (wrr_advance lb)) = go_rem (currentServer lb + 1) (len (wrr_servers lb))"
  by (simp_all add: wrr_advance_def Let_def)

lemma wrr_advance_flag:
  "maxWeight (wrr_servers lb) \<noteq> 0 \<Longrightarrow> fst (wrr_advance lb) = False"
  by (simp add: wrr_advance_def Let_def)

lemma wrr_pickServer_all_down:
  assumes run: "wrr_pickServer net lb t = Some y"
  shows "in_range (wrr_servers lb) (currentServer lb) \<longrightarrow> length (wrr_servers lb) < 2 ^ 63 \<longrightarrow>
         length (weightCounters lb) = length (wrr_servers lb) \<longrightarrow> maxWeight (wrr_servers lb) \<noteq> 0 \<longrightarrow>
         (\<exists>t' k. k < length (wrr_servers lb) \<and> IsAlive (net t' (wrr_addr (wrr_servers lb ! k))))"
proof (induct rule: wrr_pickServer.raw_induct [OF _ run])
  case (1 f net lb t y)
  show ?case
  proof (intro impI)
    assume r: "in_range (wrr_servers lb) (currentServer lb)"
      and l: "length (wrr_servers lb) < 2 ^ 63"
      and c: "length (weightCounters lb) = length (wrr_servers lb)"
      and w: "maxWeight (wrr_servers lb) \<noteq> 0"
    obtain flag lb' where adv: "wrr_advance lb = (flag, lb')"
      by (cases "wrr_advance lb")
    from wrr_advance_servers [of lb] wrr_advance_flag [OF w] adv
    have lb': "wrr_servers lb' = wrr_servers lb" "weightCounters lb' = weightCounters lb"
      "currentServer lb' = go_rem (currentServer lb + 1) (len (wrr_servers lb))" "flag = False"
      by simp_all
    from r l have ne: "len (wrr_servers lb) \<noteq> 0"
      by (auto simp: len_eq_0_iff in_range_def)
    from in_range_next(1) [OF r l] lb' have r': "in_range (wrr_servers lb') (currentServer lb')"
      by simp
    with c lb' have rc: "in_range (weightCounters lb') (currentServer lb')"
      by (simp add: in_range_def)
    let ?ih = "\<exists>t' k. k < length (wrr_servers lb) \<and> IsAlive (net t' (wrr_addr (wrr_servers lb ! k)))"
    have rec: "f net lb' t2 = Some y \<Longrightarrow> ?ih" for t2
      using 1(1) [of net lb' t2 y] r' l c w lb' by simp
    show ?ih
    proof (cases "sint (index (weightCounters lb') (currentServer lb')) \<ge> sint (currentWeight lb')")
      case heavy: True
      show ?thesis
      proof (cases "IsAlive (net t (wrr_addr (index (wrr_servers lb') (currentServer lb'))))")
        case True
        moreover from r' lb' have "nat (sint (currentServer lb')) < length (wrr_servers lb)"
          by (auto simp: in_range_def)
        ultimately show ?thesis
          unfolding index_def lb' by blast
      next
        case False
        with 1(2) ne adv lb'(4) rc r' heavy have "f net lb' (t + 1) = Some y"
          by simp
        then show ?thesis by (rule rec)
      qed
    next
      case False
      with 1(2) ne adv lb'(4) rc have "f net lb' t = Some y"
        by simp
      then show ?thesis by (rule rec)
    qed
  qed
qed

lemma wrr_pickServer_never_returns:
  assumes "in_range (wrr_servers lb) (currentServer lb)" and "length (wrr_servers lb) < 2 ^ 63"
    and "length (weightCounters lb) = length (wrr_servers lb)" and "maxWeight (wrr_servers lb) \<noteq> 0"
    and "\<forall>t k. k < length (wrr_servers lb) \<longrightarrow> \<not> IsAlive (net t (wrr_addr (wrr_servers lb ! k)))"
  shows "wrr_pickServer net lb t = None"
proof (cases "wrr_pickServer net lb t")
  case None
  then show ?thesis .
next
  case (Some y)
  from wrr_pickServer_all_down [OF this] assms show ?thesis by blast
qed

lemma lc_pickServer_all_down:
  assumes "\<forall>k<length (lc_servers lb). \<not> lc_alive net t lb k"
  shows "fst (lc_pickServer net lb t) = None"
  using least_scan_char [of "lc_observe net t (lc_servers lb)" 0 None "2 ^ 63 - 1"] assms
  by (auto simp: lc_pickServer_least_scan first_least_def length_lc_observe nth_lc_observe lc_alive_def)

lemma lrt_pickServer_all_down:
  assumes "\<forall>k<length (lrt_servers lb). \<not> lrt_alive net t lb k"
  shows "fst (lrt_pickServer net lb t) = None"
  using least_scan_char [of "lrt_observe net t (lrt_servers lb)" 0 None "2 ^ 63 - 1"] assms
  by (auto simp: lrt_pickServer_least_scan first_least_def length_lrt_observe nth_lrt_observe lrt_alive_def)

lemma rr_main_all_down:
  "rr_pickServer all_down rr_main 0 = Some (Inr (None, rr_main, 3))"
  by (simp add: rr_pickServer_def rr_for.simps rr_main_def rr_newLoadBalancer_def
      rr_newSimpleServer_def in_range_def index_def len_def go_rem_def signed_modulo_int_def
      all_down_def)

text \<open>
  C1 on the pools of the \<^verbatim>\<open>main\<close> functions, with every probe failing. The source-IP-hash
  pick and the weighted round-robin pick never return, and so neither does \<^verbatim>\<open>serveProxy\<close>:
  no 503 is sent. The round-robin, least-connections and least-response-time picks return
  \<^verbatim>\<open>nil\<close> after one probe of each backend, and \<^verbatim>\<open>serveProxy\<close> answers 503 with no backend
  served and no counter changed.
\<close>

theorem all_down_picks:
  "sip_pickServer all_down sip_main ''10.0.0.1:5000'' 0 = None \<and>
   sip_serveProxy all_down sip_main ''10.0.0.1:5000'' 0 = None \<and>
   wrr_pickServer all_down wrr_main 0 = None \<and>
   wrr_serveProxy all_down wrr_main 0 = None \<and>
   rr_serveProxy all_down rr_main 0 =
     Some (Inr (HttpError ''Service Unavailable'' 503, rr_main, 3)) \<and>
   lc_serveProxy all_down (Returns 0) lc_main 0 = (HttpError ''Service Unavailable'' 503, lc_main, 3) \<and>
   lrt_serveProxy all_down (Returns 0) lrt_main 0 = (HttpError ''Service Unavailable'' 503, lrt_main, 3)"
proof -
  have sip: "sip_pickServer all_down sip_main ''10.0.0.1:5000'' 0 = None"
    by (rule sip_pickServer_never_returns)
       (simp_all add: sip_main_def sip_newLoadBalancer_def all_down_def)
  have wrr: "wrr_pickServer all_down wrr_main 0 = None"
    by (rule wrr_pickServer_never_returns)
       (simp_all add: wrr_main_def wrr_newLoadBalancer_def wrr_newSimpleServer_def all_down_def
          in_range_def maxWeight_def Weight_def)
  have lc: "lc_pickServer all_down lc_main 0 = (None, lc_main, 3)"
    using lc_pickServer_all_down [of lc_main all_down 0] lc_pickServer_frame [of all_down lc_main 0]
    by (cases "lc_pickServer all_down lc_main 0")
       (simp add: lc_alive_def all_down_def lc_main_def lc_newLoadBalancer_def)
  have lrt: "lrt_pickServer all_down lrt_main 0 = (None, lrt_main, 3)"
    using lrt_pickServer_all_down [of lrt_main all_down 0] lrt_pickServer_frame [of all_down lrt_main 0]
    by (cases "lrt_pickServer all_down lrt_main 0")
       (simp add: lrt_alive_def all_down_def lrt_main_def lrt_newLoadBalancer_def)
  show ?thesis
    by (simp add: sip wrr lc lrt rr_main_all_down sip_serveProxy_def wrr_serveProxy_def
        rr_serveProxy_def lc_serveProxy_def lrt_serveProxy_def StatusServiceUnavailable_def)
qed

end
